theory Spec2Isabelle
  imports Main "HOL-Library.Multiset"
begin

section \<open>Axis-aligned bounding boxes (class AABB)\<close>

text \<open>
  Coordinates are Python numbers, modelled as unbounded integers. The exceptions the
  code can raise are values: \<open>AssertionError\<close> comes from the two \<^verbatim>\<open>assert\<close>
  statements of \<^verbatim>\<open>AABB.__init__\<close>, \<open>TypeError\<close> from \<^verbatim>\<open>len(None)\<close> in
  \<^verbatim>\<open>AABB.__len__\<close>, \<open>AttributeError\<close> from reading \<^verbatim>\<open>.aabb\<close> of a child
  that is \<^verbatim>\<open>None\<close>.
\<close>

datatype error = AssertionError | TypeError | AttributeError

definition bind :: "error + 'a \<Rightarrow> ('a \<Rightarrow> error + 'b) \<Rightarrow> error + 'b" where
  "bind m f = (case m of Inl e \<Rightarrow> Inl e | Inr x \<Rightarrow> f x)"

text \<open>
  An AABB object has the attribute \<^verbatim>\<open>limits\<close>, which is \<^verbatim>\<open>None\<close> or the list of
  intervals, and the iteration cursor \<^verbatim>\<open>_i\<close>. \<^verbatim>\<open>limits\<close> is never assigned after
  construction, so it is part of the value; once \<^verbatim>\<open>__init__\<close> has returned every
  interval has exactly two bounds, so a constructed box stores pairs. The cursor is
  mutable state of the object: it lives in a store indexed by the identity \<open>oid\<close> of
  the object (what Python's \<^verbatim>\<open>is\<close> compares).
\<close>

type_synonym interval = "int \<times> int"

record aabb =
  oid :: nat
  limits :: "interval list option"

type_synonym cursors = "nat \<Rightarrow> nat"

text \<open>\<^verbatim>\<open>AABB.__init__\<close>: the loop of assertions over the supplied intervals, in order.\<close>

fun check_limits :: "int list list \<Rightarrow> error + unit" where
  "check_limits [] = Inr ()"
| "check_limits (lims # rest) =
     (if length lims \<noteq> 2 then Inl AssertionError
      else if \<not> (lims ! 0 \<le> lims ! 1) then Inl AssertionError
      else check_limits rest)"

definition to_pair :: "int list \<Rightarrow> interval" where
  "to_pair lims = (lims ! 0, lims ! 1)"

definition of_pair :: "interval \<Rightarrow> int list" where
  "of_pair p = [fst p, snd p]"

definition AABB_init :: "nat \<Rightarrow> int list list option \<Rightarrow> error + aabb" where
  "AABB_init k lims =
     (case lims of
        None \<Rightarrow> Inr \<lparr>oid = k, limits = None\<rparr>
      | Some ls \<Rightarrow> bind (check_limits ls) (\<lambda>_. Inr \<lparr>oid = k, limits = Some (map to_pair ls)\<rparr>))"

text \<open>\<^verbatim>\<open>AABB.__len__\<close>: \<^verbatim>\<open>len(self.limits)\<close>, a TypeError when the limits are None.\<close>

definition len_aabb :: "aabb \<Rightarrow> error + nat" where
  "len_aabb a = (case limits a of None \<Rightarrow> Inl TypeError | Some ls \<Rightarrow> Inr (length ls))"

text \<open>
  \<^verbatim>\<open>AABB.__iter__\<close> resets the cursor of the object and returns the object itself;
  \<^verbatim>\<open>AABB.__next__\<close> reads at the cursor and advances it. The result \<open>None\<close> of
  \<open>next_aabb\<close> is StopIteration.
\<close>

definition iter_aabb :: "aabb \<Rightarrow> cursors \<Rightarrow> cursors" where
  "iter_aabb a cur = cur(oid a := 0)"

definition next_aabb :: "aabb \<Rightarrow> cursors \<Rightarrow> error + (interval option \<times> cursors)" where
  "next_aabb a cur =
     bind (len_aabb a) (\<lambda>n.
       if cur (oid a) < n then Inr (Some (the (limits a) ! cur (oid a)), cur(oid a := cur (oid a) + 1))
       else Inr (None, cur))"

text \<open>
  A \<^verbatim>\<open>for\<close> loop over one box: \<^verbatim>\<open>__iter__\<close>, then \<^verbatim>\<open>__next__\<close> until
  StopIteration.
\<close>

function iterate_from :: "aabb \<Rightarrow> cursors \<Rightarrow> error + interval list" where
  "iterate_from a cur =
     (case next_aabb a cur of
        Inl e \<Rightarrow> Inl e
      | Inr (None, _) \<Rightarrow> Inr []
      | Inr (Some x, cur1) \<Rightarrow> (case iterate_from a cur1 of Inl e \<Rightarrow> Inl e | Inr xs \<Rightarrow> Inr (x # xs)))"
  by pat_completeness auto
termination
  by (relation "measure (\<lambda>(a, cur). length (the (limits a)) - cur (oid a))")
     (auto simp: next_aabb_def len_aabb_def bind_def split: option.splits if_splits)

definition iterate :: "aabb \<Rightarrow> error + interval list" where
  "iterate a = iterate_from a (iter_aabb a (\<lambda>_. 0))"

text \<open>
  \<^verbatim>\<open>zip(a, b)\<close> calls \<^verbatim>\<open>iter\<close> on both arguments, then alternates \<^verbatim>\<open>next(a)\<close> and
  \<^verbatim>\<open>next(b)\<close>, stopping at the first StopIteration. When \<open>a\<close> and \<open>b\<close> are the same
  object there is one cursor, advanced by both calls.
\<close>

function zip_from :: "aabb \<Rightarrow> aabb \<Rightarrow> cursors \<Rightarrow> error + (interval \<times> interval) list" where
  "zip_from a b cur =
     (case next_aabb a cur of
        Inl e \<Rightarrow> Inl e
      | Inr (None, _) \<Rightarrow> Inr []
      | Inr (Some x, cur1) \<Rightarrow>
          (case next_aabb b cur1 of
             Inl e \<Rightarrow> Inl e
           | Inr (None, _) \<Rightarrow> Inr []
           | Inr (Some y, cur2) \<Rightarrow>
               (case zip_from a b cur2 of Inl e \<Rightarrow> Inl e | Inr zs \<Rightarrow> Inr ((x, y) # zs))))"
  by pat_completeness auto
termination
  by (relation "measure (\<lambda>(a, b, cur). length (the (limits a)) - cur (oid a))")
     (auto simp: next_aabb_def len_aabb_def bind_def split: option.splits if_splits)

definition zip_aabb :: "aabb \<Rightarrow> aabb \<Rightarrow> error + (interval \<times> interval) list" where
  "zip_aabb a b = zip_from a b (iter_aabb b (iter_aabb a (\<lambda>_. 0)))"

text \<open>
  \<^verbatim>\<open>AABB.__eq__\<close>. The loop is over \<^verbatim>\<open>enumerate(self)\<close> and reads the other box by
  index; both limits are lists of equal length there, so nothing is raised.
\<close>

fun eq_loop :: "(nat \<times> interval) list \<Rightarrow> interval list \<Rightarrow> bool" where
  "eq_loop [] ys = True"
| "eq_loop ((i, lims1) # rest) ys =
     (if fst lims1 \<noteq> fst (ys ! i) \<or> snd lims1 \<noteq> snd (ys ! i) then False
      else eq_loop rest ys)"

definition aabb_eq :: "aabb \<Rightarrow> aabb \<Rightarrow> bool" where
  "aabb_eq a b =
     (case (limits a, limits b) of
        (None, None) \<Rightarrow> True
      | (None, Some _) \<Rightarrow> False
      | (Some _, None) \<Rightarrow> False
      | (Some xs, Some ys) \<Rightarrow>
          if length xs \<noteq> length ys then False else eq_loop (enumerate 0 xs) ys)"

text \<open>
  \<^verbatim>\<open>AABB.merge\<close>. Every branch returns \<^verbatim>\<open>cls(...)\<close>, a new object whose
  identity \<open>k\<close> is supplied by the caller, and runs the assertions of \<^verbatim>\<open>__init__\<close>
  again.
\<close>

definition merge :: "nat \<Rightarrow> aabb \<Rightarrow> aabb \<Rightarrow> error + aabb" where
  "merge k aabb1 aabb2 =
     (if limits aabb1 = None \<and> limits aabb2 = None then AABB_init k None
      else if limits aabb1 = None then AABB_init k (map_option (map of_pair) (limits aabb2))
      else if limits aabb2 = None then AABB_init k (map_option (map of_pair) (limits aabb1))
      else bind (zip_aabb aabb1 aabb2) (\<lambda>zs.
             AABB_init k (Some (map (\<lambda>(lims1, lims2).
               [min (fst lims1) (fst lims2), max (snd lims1) (snd lims2)]) zs))))"

text \<open>\<^verbatim>\<open>AABB.perimeter\<close>, with its two nested iterations over \<^verbatim>\<open>range(n_dim)\<close>.\<close>

definition p_edge :: "int list \<Rightarrow> nat \<Rightarrow> int" where
  "p_edge side_lens i =
     fold (\<lambda>j p. if j \<noteq> i then p * side_lens ! j else p) [0..<length side_lens] 1"

definition perimeter :: "aabb \<Rightarrow> error + int" where
  "perimeter a =
     bind (len_aabb a) (\<lambda>n.
       if n = 1 then Inr 0
       else bind (iterate a) (\<lambda>ls.
         let side_lens = map (\<lambda>(lb, ub). ub - lb) ls
         in Inr (2 * fold (\<lambda>i perim. perim + p_edge side_lens i) [0..<length side_lens] 0)))"

text \<open>\<^verbatim>\<open>AABB.overlaps\<close>: the first pair of intervals that fails the test returns False.\<close>

fun overlaps_loop :: "(interval \<times> interval) list \<Rightarrow> bool" where
  "overlaps_loop [] = True"
| "overlaps_loop ((lims1, lims2) # rest) =
     (if \<not> (snd lims1 \<ge> fst lims2 \<and> fst lims1 \<le> snd lims2) then False
      else overlaps_loop rest)"

definition overlaps :: "aabb \<Rightarrow> aabb \<Rightarrow> error + bool" where
  "overlaps a b = bind (zip_aabb a b) (\<lambda>zs. Inr (overlaps_loop zs))"


section \<open>The tree (class AABBTree)\<close>

text \<open>
  A node has the attributes \<^verbatim>\<open>aabb\<close>, \<^verbatim>\<open>value\<close>, \<^verbatim>\<open>left\<close> and \<^verbatim>\<open>right\<close>; the
  value and each child may be \<^verbatim>\<open>None\<close>. \<^verbatim>\<open>AABBTree()\<close> takes the default box, one
  object created when the class is defined; it has identity 0 here.
\<close>

datatype 'v tree =
  Node (aabb: aabb) (val: "'v option") (left: "'v tree option") (right: "'v tree option")

definition default_aabb :: aabb where
  "default_aabb = \<lparr>oid = 0, limits = None\<rparr>"

definition empty_tree :: "'v tree" where
  "empty_tree = Node default_aabb None None None"

definition is_leaf :: "'v tree \<Rightarrow> bool" where
  "is_leaf t = (left t = None \<and> right t = None)"

text \<open>Reading \<^verbatim>\<open>self.left\<close> or \<^verbatim>\<open>self.right\<close> for an attribute access.\<close>

definition child :: "'v tree option \<Rightarrow> error + 'v tree" where
  "child c = (case c of None \<Rightarrow> Inl AttributeError | Some t \<Rightarrow> Inr t)"

text \<open>\<^verbatim>\<open>AABBTree.__eq__\<close>; \<open>child_eq\<close> is \<^verbatim>\<open>==\<close> on two children, where None equals
  only None.\<close>

fun tree_eq :: "'v tree \<Rightarrow> 'v tree \<Rightarrow> bool" where
  "tree_eq (Node a v l r) (Node a' v' l' r') =
     (if \<not> aabb_eq a a' then False
      else if (l = None \<and> r = None) \<noteq> (l' = None \<and> r' = None) then False
      else (case l of None \<Rightarrow> l' = None
            | Some lt \<Rightarrow> (case l' of None \<Rightarrow> False | Some lt' \<Rightarrow> tree_eq lt lt'))
         \<and> (case r of None \<Rightarrow> r' = None
            | Some rt \<Rightarrow> (case r' of None \<Rightarrow> False | Some rt' \<Rightarrow> tree_eq rt rt')))"

text \<open>
  \<^verbatim>\<open>copy.deepcopy\<close> of a node copies the box, the value and both subtrees, in the
  order of the attributes. Every copied box is a new object; the memo of
  \<^verbatim>\<open>deepcopy\<close> maps an object already copied to its copy. The state is the memo and
  the next free identity.
\<close>

type_synonym memo = "nat \<Rightarrow> nat option"

definition deepcopy_aabb :: "aabb \<Rightarrow> memo \<times> nat \<Rightarrow> aabb \<times> (memo \<times> nat)" where
  "deepcopy_aabb a s =
     (case fst s (oid a) of
        Some k \<Rightarrow> (a\<lparr>oid := k\<rparr>, s)
      | None \<Rightarrow> (a\<lparr>oid := snd s\<rparr>, ((fst s)(oid a \<mapsto> snd s), Suc (snd s))))"

fun deepcopy_tree :: "'v tree \<Rightarrow> memo \<times> nat \<Rightarrow> 'v tree \<times> (memo \<times> nat)" where
  "deepcopy_tree (Node a v l r) s =
     (case deepcopy_aabb a s of (a', s1) \<Rightarrow>
        (case (case l of None \<Rightarrow> (None, s1)
               | Some lt \<Rightarrow> (case deepcopy_tree lt s1 of (lt', s') \<Rightarrow> (Some lt', s'))) of
           (l', s2) \<Rightarrow>
             (case (case r of None \<Rightarrow> (None, s2)
                    | Some rt \<Rightarrow> (case deepcopy_tree rt s2 of (rt', s') \<Rightarrow> (Some rt', s'))) of
                (r', s3) \<Rightarrow> (Node a' v l' r', s3))))"

definition deepcopy :: "'v tree \<Rightarrow> nat \<Rightarrow> 'v tree \<times> nat" where
  "deepcopy t k = (case deepcopy_tree t (Map.empty, k) of (t', (_, k')) \<Rightarrow> (t', k'))"

text \<open>
  \<^verbatim>\<open>AABBTree.add\<close>, lines 257 to 271: the three costs at an internal node. The
  merged boxes are temporaries; they take the next free identity \<open>k\<close>, which stays free.
\<close>

definition add_costs :: "nat \<Rightarrow> 'v tree \<Rightarrow> aabb \<Rightarrow> error + (int \<times> int \<times> int)" where
  "add_costs k self b =
     bind (perimeter (aabb self)) (\<lambda>tree_p.
     bind (merge k (aabb self) b) (\<lambda>tm.
     bind (perimeter tm) (\<lambda>tree_merge_p.
     let new_parent_cost = 2 * tree_merge_p;
         min_pushdown_cost = 2 * (tree_merge_p - tree_p) in
     bind (child (left self)) (\<lambda>lt.
     bind (merge k (aabb lt) b) (\<lambda>lm.
     bind (perimeter lm) (\<lambda>left_merge_p.
     bind (if \<not> is_leaf lt
           then bind (perimeter (aabb lt)) (\<lambda>p. Inr (left_merge_p + min_pushdown_cost - p))
           else Inr (left_merge_p + min_pushdown_cost)) (\<lambda>cost_left.
     bind (child (right self)) (\<lambda>rt.
     bind (merge k (aabb rt) b) (\<lambda>rm.
     bind (perimeter rm) (\<lambda>right_merge_p.
     bind (if \<not> is_leaf rt
           then bind (perimeter (aabb rt)) (\<lambda>p. Inr (right_merge_p + min_pushdown_cost - p))
           else Inr (right_merge_p + min_pushdown_cost)) (\<lambda>cost_right.
     Inr (new_parent_cost, cost_left, cost_right))))))))))))"

text \<open>Line 281: \<^verbatim>\<open>self.aabb = AABB.merge(self.left.aabb, self.right.aabb)\<close>.\<close>

definition recompute :: "'v option \<Rightarrow> 'v tree \<Rightarrow> 'v tree \<Rightarrow> nat \<Rightarrow> error + ('v tree \<times> nat)" where
  "recompute v lt rt k =
     bind (merge k (aabb lt) (aabb rt)) (\<lambda>m. Inr (Node m v (Some lt) (Some rt), Suc k))"

text \<open>
  \<^verbatim>\<open>AABBTree.add\<close> mutates the node in place; the model returns the node after the
  call together with the next free identity, or the exception raised.
\<close>

fun add :: "'v tree \<Rightarrow> aabb \<Rightarrow> 'v option \<Rightarrow> nat \<Rightarrow> error + ('v tree \<times> nat)" where
  "add (Node a v l r) b x k =
     (if aabb_eq a \<lparr>oid = k, limits = None\<rparr> then Inr (Node b x l r, k)
      else if l = None \<and> r = None then
        (case deepcopy (Node a v l r) k of (cp, k1) \<Rightarrow>
           bind (merge k1 a b) (\<lambda>m.
             Inr (Node m None (Some cp) (Some (Node b x None None)), Suc k1)))
      else
        (case add_costs k (Node a v l r) b of
           Inl e \<Rightarrow> Inl e
         | Inr (new_parent_cost, cost_left, cost_right) \<Rightarrow>
             (if new_parent_cost < min cost_left cost_right then
                (case deepcopy (Node a v l r) k of (cp, k1) \<Rightarrow>
                   recompute None cp (Node b x None None) k1)
              else if cost_left < cost_right then
                (case l of None \<Rightarrow> Inl AttributeError
                 | Some lt \<Rightarrow>
                     (case add lt b x k of Inl e \<Rightarrow> Inl e
                      | Inr (lt', k1) \<Rightarrow>
                          (case r of None \<Rightarrow> Inl AttributeError
                           | Some rt \<Rightarrow> recompute v lt' rt k1)))
              else
                (case r of None \<Rightarrow> Inl AttributeError
                 | Some rt \<Rightarrow>
                     (case add rt b x k of Inl e \<Rightarrow> Inl e
                      | Inr (rt', k1) \<Rightarrow>
                          (case l of None \<Rightarrow> Inl AttributeError
                           | Some lt \<Rightarrow> recompute v lt rt' k1))))))"

text \<open>A sequence of calls of \<^verbatim>\<open>add\<close> on one tree.\<close>

fun add_all :: "'v tree \<Rightarrow> (aabb \<times> 'v option) list \<Rightarrow> nat \<Rightarrow> error + ('v tree \<times> nat)" where
  "add_all t [] k = Inr (t, k)"
| "add_all t ((b, x) # ps) k =
     (case add t b x k of Inl e \<Rightarrow> Inl e | Inr (t', k') \<Rightarrow> add_all t' ps k')"

text \<open>\<^verbatim>\<open>AABBTree.does_overlap\<close>: both child boxes are tested before any recursion.\<close>

fun does_overlap :: "'v tree \<Rightarrow> aabb \<Rightarrow> error + bool" where
  "does_overlap (Node a v l r) q =
     (if l = None \<and> r = None then overlaps a q
      else
        (case l of None \<Rightarrow> Inl AttributeError
         | Some lt \<Rightarrow>
             (case overlaps (aabb lt) q of Inl e \<Rightarrow> Inl e
              | Inr left_aabb_over \<Rightarrow>
                  (case r of None \<Rightarrow> Inl AttributeError
                   | Some rt \<Rightarrow>
                       (case overlaps (aabb rt) q of Inl e \<Rightarrow> Inl e
                        | Inr right_aabb_over \<Rightarrow>
                            (case (if left_aabb_over then does_overlap lt q else Inr False) of
                               Inl e \<Rightarrow> Inl e
                             | Inr True \<Rightarrow> Inr True
                             | Inr False \<Rightarrow>
                                 (case (if right_aabb_over then does_overlap rt q else Inr False) of
                                    Inl e \<Rightarrow> Inl e
                                  | Inr True \<Rightarrow> Inr True
                                  | Inr False \<Rightarrow> Inr False)))))))"

text \<open>\<^verbatim>\<open>AABBTree.overlap_values\<close>.\<close>

fun overlap_values :: "'v tree \<Rightarrow> aabb \<Rightarrow> error + 'v option list" where
  "overlap_values (Node a v l r) q =
     (if l = None \<and> r = None then
        (case does_overlap (Node a v l r) q of
           Inl e \<Rightarrow> Inl e
         | Inr True \<Rightarrow> Inr [v]
         | Inr False \<Rightarrow> Inr [])
      else
        (case l of None \<Rightarrow> Inl AttributeError
         | Some lt \<Rightarrow>
             (case overlaps (aabb lt) q of Inl e \<Rightarrow> Inl e
              | Inr lo \<Rightarrow>
                  (case (if lo then overlap_values lt q else Inr []) of Inl e \<Rightarrow> Inl e
                   | Inr lvs \<Rightarrow>
                       (case r of None \<Rightarrow> Inl AttributeError
                        | Some rt \<Rightarrow>
                            (case overlaps (aabb rt) q of Inl e \<Rightarrow> Inl e
                             | Inr ro \<Rightarrow>
                                 (case (if ro then overlap_values rt q else Inr []) of
                                    Inl e \<Rightarrow> Inl e
                                  | Inr rvs \<Rightarrow> Inr (lvs @ rvs))))))))"

section \<open>Notions used to state the properties\<close>

text \<open>
  A box as \<^verbatim>\<open>AABB.__init__\<close> leaves it: every interval has its lower bound at most
  its upper bound.
\<close>

definition valid_aabb :: "aabb \<Rightarrow> bool" where
  "valid_aabb a = (case limits a of None \<Rightarrow> True | Some ls \<Rightarrow> list_all (\<lambda>p. fst p \<le> snd p) ls)"

text \<open>The dimensionality of a box; the empty box has none.\<close>

definition dim :: "aabb \<Rightarrow> nat option" where
  "dim a = map_option length (limits a)"

text \<open>
  The overlap test in the words of the specification: in every dimension \<open>i\<close>,
  \<open>a.hi\<^sub>i \<ge> b.lo\<^sub>i\<close> and \<open>a.lo\<^sub>i \<le> b.hi\<^sub>i\<close>.
\<close>

definition overlaps_spec :: "interval list \<Rightarrow> interval list \<Rightarrow> bool" where
  "overlaps_spec xs ys =
     list_all (\<lambda>i. snd (xs ! i) \<ge> fst (ys ! i) \<and> fst (xs ! i) \<le> snd (ys ! i)) [0..<length xs]"

text \<open>
  The union of two boxes in the words of the specification: per dimension, the
  smaller lower bound and the larger upper bound.
\<close>

definition merge_spec :: "interval list \<Rightarrow> interval list \<Rightarrow> interval list" where
  "merge_spec xs ys =
     map (\<lambda>i. (min (fst (xs ! i)) (fst (ys ! i)), max (snd (xs ! i)) (snd (ys ! i)))) [0..<length xs]"

text \<open>
  What two trees must share to agree in their boxes and in their leaf/internal shape
  at every corresponding node: the tree without its values and without the identities
  of its box objects.
\<close>

datatype skel = Skel "interval list option" "skel option" "skel option"

fun skeleton :: "'v tree \<Rightarrow> skel" where
  "skeleton (Node a v l r) = Skel (limits a) (map_option skeleton l) (map_option skeleton r)"

text \<open>
  The insertion rule at an internal node in the words of the specification. For an
  incoming box \<open>b\<close>: the direct cost \<open>2 * perimeter(merge(self.box, b))\<close>, the
  pushdown \<open>2 * (perimeter(merge(self.box, b)) - perimeter(self.box))\<close>, and for a child
  \<open>c\<close> the cost \<open>perimeter(merge(c.box, b)) + pushdown\<close>, reduced by
  \<open>perimeter(c.box)\<close> exactly when \<open>c\<close> is internal.
\<close>

definition direct_cost :: "nat \<Rightarrow> aabb \<Rightarrow> aabb \<Rightarrow> error + int" where
  "direct_cost k box b = bind (merge k box b) (\<lambda>m. bind (perimeter m) (\<lambda>p. Inr (2 * p)))"

definition pushdown :: "nat \<Rightarrow> aabb \<Rightarrow> aabb \<Rightarrow> error + int" where
  "pushdown k box b =
     bind (merge k box b) (\<lambda>m. bind (perimeter m) (\<lambda>pm.
       bind (perimeter box) (\<lambda>p. Inr (2 * (pm - p)))))"

definition cost_child :: "nat \<Rightarrow> 'v tree \<Rightarrow> aabb \<Rightarrow> int \<Rightarrow> error + int" where
  "cost_child k c b pd =
     bind (merge k (aabb c) b) (\<lambda>m. bind (perimeter m) (\<lambda>pm.
       if is_leaf c then Inr (pm + pd)
       else bind (perimeter (aabb c)) (\<lambda>pc. Inr (pm + pd - pc))))"

text \<open>
  The split in place: the node is cloned into a new left child, a new leaf with
  \<open>(b, x)\<close> becomes the right child, the value of the node is cleared, and the box of
  the node is recomputed from the two children.
\<close>

definition split_node :: "'v tree \<Rightarrow> aabb \<Rightarrow> 'v option \<Rightarrow> nat \<Rightarrow> error + ('v tree \<times> nat)" where
  "split_node self b x k =
     (case deepcopy self k of (cp, k1) \<Rightarrow>
        bind (merge k1 (aabb cp) b) (\<lambda>m.
          Inr (Node m None (Some cp) (Some (Node b x None None)), Suc k1)))"

text \<open>The recursion into the left or the right child, the box recomputed afterwards.\<close>

definition descend_left :: "'v tree \<Rightarrow> aabb \<Rightarrow> 'v option \<Rightarrow> nat \<Rightarrow> error + ('v tree \<times> nat)" where
  "descend_left self b x k =
     bind (child (left self)) (\<lambda>lt. bind (add lt b x k) (\<lambda>(lt', k1).
       bind (child (right self)) (\<lambda>rt. bind (merge k1 (aabb lt') (aabb rt)) (\<lambda>m.
         Inr (Node m (val self) (Some lt') (Some rt), Suc k1)))))"

definition descend_right :: "'v tree \<Rightarrow> aabb \<Rightarrow> 'v option \<Rightarrow> nat \<Rightarrow> error + ('v tree \<times> nat)" where
  "descend_right self b x k =
     bind (child (right self)) (\<lambda>rt. bind (add rt b x k) (\<lambda>(rt', k1).
       bind (child (left self)) (\<lambda>lt. bind (merge k1 (aabb lt) (aabb rt')) (\<lambda>m.
         Inr (Node m (val self) (Some lt) (Some rt'), Suc k1)))))"

text \<open>
  A tree as a sequence of insertions of non-empty boxes leaves it: every box is
  non-empty and satisfies the assertions of the constructor, and every node has both
  children or none.
\<close>

fun good :: "'v tree \<Rightarrow> bool" where
  "good (Node a v l r) =
     (limits a \<noteq> None \<and> valid_aabb a \<and>
      (case l of
         None \<Rightarrow> r = None
       | Some lt \<Rightarrow> (case r of None \<Rightarrow> False | Some rt \<Rightarrow> good lt \<and> good rt)))"

text \<open>The tree with the identities of its box objects erased.\<close>

fun strip :: "'v tree \<Rightarrow> 'v tree" where
  "strip (Node a v l r) = Node (a\<lparr>oid := 0\<rparr>) v (map_option strip l) (map_option strip r)"

text \<open>The identities of the box objects a tree holds.\<close>

fun oids :: "'v tree \<Rightarrow> nat set" where
  "oids (Node a v l r) =
     insert (oid a) ((case l of None \<Rightarrow> {} | Some lt \<Rightarrow> oids lt)
                     \<union> (case r of None \<Rightarrow> {} | Some rt \<Rightarrow> oids rt))"

text \<open>A tree with the identity of every box object changed by \<open>f\<close>.\<close>

fun relabel :: "(nat \<Rightarrow> nat) \<Rightarrow> 'v tree \<Rightarrow> 'v tree" where
  "relabel f (Node a v l r) =
     Node (a\<lparr>oid := f (oid a)\<rparr>) v (map_option (relabel f) l) (map_option (relabel f) r)"

text \<open>The leaves of a tree from left to right, each with its limits and its value.\<close>

fun leaves :: "'v tree \<Rightarrow> (interval list option \<times> 'v option) list" where
  "leaves (Node a v l r) =
     (if l = None \<and> r = None then [(limits a, v)]
      else (case l of None \<Rightarrow> [] | Some lt \<Rightarrow> leaves lt)
         @ (case r of None \<Rightarrow> [] | Some rt \<Rightarrow> leaves rt))"

text \<open>
  The tightness invariant in the words of the specification: for every internal node
  \<open>n\<close>, \<^verbatim>\<open>n.aabb == AABB.merge(n.left.aabb, n.right.aabb)\<close>.
\<close>

fun tight :: "'v tree \<Rightarrow> bool" where
  "tight (Node a v l r) =
     (if l = None \<and> r = None then True
      else (case l of None \<Rightarrow> False
            | Some lt \<Rightarrow>
                (case r of None \<Rightarrow> False
                 | Some rt \<Rightarrow>
                     (case merge 0 (aabb lt) (aabb rt) of Inl e \<Rightarrow> False | Inr m \<Rightarrow> aabb_eq a m)
                     \<and> tight lt \<and> tight rt)))"

text \<open>
  The invariant of a tree built from boxes of dimensionality \<open>d\<close> that are pairwise
  distinct objects, with \<open>k\<close> the next free identity: every box is constructed, has
  dimensionality \<open>d\<close> and an identity below \<open>k\<close>; every node has both children or
  none; the boxes of two siblings are distinct objects; and the limits of an internal
  node are the union of the limits of its children.
\<close>

fun inv :: "nat \<Rightarrow> nat \<Rightarrow> 'v tree \<Rightarrow> bool" where
  "inv d k (Node a v l r) =
     (dim a = Some d \<and> valid_aabb a \<and> oid a < k \<and>
      (case l of
         None \<Rightarrow> r = None
       | Some lt \<Rightarrow>
           (case r of None \<Rightarrow> False
            | Some rt \<Rightarrow>
                inv d k lt \<and> inv d k rt \<and> oid (aabb lt) \<noteq> oid (aabb rt)
                \<and> limits a = Some (merge_spec (the (limits (aabb lt))) (the (limits (aabb rt)))))))"

section \<open>Properties of boxes\<close>

declare zip_from.simps [simp del] iterate_from.simps [simp del]

lemma bind_Inl [simp]: "bind (Inl e) f = Inl e"
  by (simp add: bind_def)

lemma bind_Inr [simp]: "bind (Inr x) f = f x"
  by (simp add: bind_def)

lemma bind_eq_Inr: "bind m f = Inr y \<longleftrightarrow> (\<exists>x. m = Inr x \<and> f x = Inr y)"
  by (cases m) auto

lemma next_aabb_None: "limits a = None \<Longrightarrow> next_aabb a cur = Inl TypeError"
  by (simp add: next_aabb_def len_aabb_def)

lemma next_aabb_Some:
  "limits a = Some xs \<Longrightarrow>
   next_aabb a cur =
     (if cur (oid a) < length xs
      then Inr (Some (xs ! cur (oid a)), cur(oid a := Suc (cur (oid a))))
      else Inr (None, cur))"
  by (simp add: next_aabb_def len_aabb_def)

lemma zip_from_None: "limits a = None \<Longrightarrow> zip_from a b cur = Inl TypeError"
  by (subst zip_from.simps) (simp add: next_aabb_None)

lemma zip_aabb_None: "limits a = None \<Longrightarrow> zip_aabb a b = Inl TypeError"
  by (simp add: zip_aabb_def zip_from_None)

lemma overlaps_None: "limits a = None \<Longrightarrow> overlaps a b = Inl TypeError"
  by (simp add: overlaps_def zip_aabb_None)

lemma eq_loop_enumerate:
  "eq_loop (enumerate n xs) ys \<longleftrightarrow> (\<forall>i < length xs. xs ! i = ys ! (n + i))"
proof (induction xs arbitrary: n)
  case Nil
  show ?case by simp
next
  case (Cons x xs)
  have "(\<forall>i < Suc (length xs). (x # xs) ! i = ys ! (n + i))
        \<longleftrightarrow> x = ys ! n \<and> (\<forall>i < length xs. xs ! i = ys ! (Suc n + i))"
    by (auto simp: less_Suc_eq_0_disj)
  with Cons.IH [of "Suc n"] show ?case
    by (auto simp: prod_eq_iff)
qed

lemma enumerate_all_eq:
  assumes "length xs = length ys"
  shows "eq_loop (enumerate 0 xs) ys \<longleftrightarrow> xs = ys"
  using assms by (simp add: eq_loop_enumerate list_eq_iff_nth_eq)

text \<open>\<^verbatim>\<open>==\<close> on boxes compares the limits and nothing else.\<close>

lemma aabb_eq_limits: "aabb_eq a b \<longleftrightarrow> limits a = limits b"
  by (cases "limits a"; cases "limits b") (auto simp: aabb_eq_def enumerate_all_eq)

section \<open>The uninitialised root\<close>

text \<open>
  Claim C8. On a freshly constructed tree (the root has the empty box, no value and no
  children) both queries raise, for every query box: the root is a leaf, and the
  overlap test of its box starts an iteration whose first \<^verbatim>\<open>__next__\<close> takes
  \<^verbatim>\<open>len(None)\<close>. Neither False nor an empty list is returned.
\<close>

theorem empty_tree_queries_raise:
  "does_overlap empty_tree q = Inl TypeError \<and> overlap_values empty_tree q = Inl TypeError"
  by (simp add: empty_tree_def default_aabb_def overlaps_None)

text \<open>
  Claim C9. Adding the empty box to the empty tree stores the value and leaves a root
  that still passes the test \<^verbatim>\<open>self.aabb == AABB()\<close>; the next \<^verbatim>\<open>add\<close>, of any box
  \<open>b\<close> and value \<open>y\<close>, overwrites box and value in place. The result is a single leaf
  without children, and the first value \<open>x\<close> is gone.
\<close>

theorem empty_box_insert_lost:
  "add empty_tree \<lparr>oid = j, limits = None\<rparr> x k
     = Inr (Node \<lparr>oid = j, limits = None\<rparr> x None None, k)
   \<and> aabb_eq \<lparr>oid = j, limits = None\<rparr> \<lparr>oid = k, limits = None\<rparr>
   \<and> add (Node \<lparr>oid = j, limits = None\<rparr> x None None) b y k = Inr (Node b y None None, k)"
  by (simp add: empty_tree_def default_aabb_def aabb_eq_limits)

section \<open>Construction and equality\<close>

lemma check_limits_all:
  "check_limits ls = (if list_all (\<lambda>l. length l = 2 \<and> l ! 0 \<le> l ! 1) ls then Inr () else Inl AssertionError)"
  by (induction ls) auto

text \<open>
  Claim C5. Constructing a box from a list of intervals raises (and returns no box)
  exactly when some interval does not have two bounds or has its lower bound above its
  upper bound; otherwise it returns the box with these intervals. With no list
  (\<^verbatim>\<open>None\<close>) it returns the empty box. The error the specification calls
  InvalidIntervalError is the AssertionError of the two \<^verbatim>\<open>assert\<close> statements.
\<close>

theorem AABB_init_validates:
  "AABB_init k None = Inr \<lparr>oid = k, limits = None\<rparr>
   \<and> AABB_init k (Some ls) =
       (if list_all (\<lambda>l. length l = 2 \<and> l ! 0 \<le> l ! 1) ls
        then Inr \<lparr>oid = k, limits = Some (map to_pair ls)\<rparr>
        else Inl AssertionError)"
  by (simp add: AABB_init_def check_limits_all)

lemma AABB_init_valid: "AABB_init k lims = Inr a \<Longrightarrow> valid_aabb a \<and> oid a = k"
  by (cases lims)
     (auto simp: AABB_init_def check_limits_all valid_aabb_def to_pair_def list_all_iff
           split: if_splits)

lemma to_pair_of_pair [simp]: "to_pair (of_pair p) = p"
  by (simp add: to_pair_def of_pair_def)

lemma AABB_init_of_pairs:
  "AABB_init k (Some (map of_pair ps)) =
     (if list_all (\<lambda>p. fst p \<le> snd p) ps then Inr \<lparr>oid = k, limits = Some ps\<rparr>
      else Inl AssertionError)"
  by (simp add: AABB_init_def check_limits_all list_all_iff of_pair_def o_def
                to_pair_def)

text \<open>
  Claim C10. \<^verbatim>\<open>AABBTree.__eq__\<close> returns True exactly when the two trees have the same
  skeleton: the same limits at every corresponding node and the same children present.
  The values do not occur in the skeleton, so trees that differ only in their values
  are equal.
\<close>

theorem tree_eq_ignores_values: "tree_eq t1 t2 \<longleftrightarrow> skeleton t1 = skeleton t2"
proof (induction t1 t2 rule: tree_eq.induct)
  case (1 a v l r a' v' l' r')
  then show ?case
    by (cases l; cases l'; cases r; cases r') (auto simp: aabb_eq_limits)
qed

section \<open>Iteration, overlap and merge\<close>

lemma zip_from_distinct:
  assumes "oid a \<noteq> oid b" "limits a = Some xs" "limits b = Some ys"
  shows "zip_from a b cur = Inr (zip (drop (cur (oid a)) xs) (drop (cur (oid b)) ys))"
  using assms
proof (induction a b cur rule: zip_from.induct)
  case (1 a b cur)
  show ?case
  proof (cases "cur (oid a) < length xs")
    case False
    then show ?thesis using 1(2-)
      by (subst zip_from.simps) (simp add: next_aabb_Some)
  next
    case ia: True
    show ?thesis
    proof (cases "cur (oid b) < length ys")
      case False
      then show ?thesis using 1(2-) ia
        by (subst zip_from.simps) (simp add: next_aabb_Some)
    next
      case ib: True
      let ?cur2 = "(cur(oid a := Suc (cur (oid a))))(oid b := Suc (cur (oid b)))"
      have n1: "next_aabb a cur = Inr (Some (xs ! cur (oid a)), cur(oid a := Suc (cur (oid a))))"
        using 1(3) ia by (simp add: next_aabb_Some)
      have n2: "next_aabb b (cur(oid a := Suc (cur (oid a)))) = Inr (Some (ys ! cur (oid b)), ?cur2)"
        using 1(2,4) ib by (simp add: next_aabb_Some)
      have c: "?cur2 (oid a) = Suc (cur (oid a))" "?cur2 (oid b) = Suc (cur (oid b))"
        using 1(2) by simp_all
      have ih: "zip_from a b ?cur2 = Inr (zip (drop (Suc (cur (oid a))) xs) (drop (Suc (cur (oid b))) ys))"
        using "1.IH" [OF n1 refl refl n2 refl refl 1(2-)] unfolding c .
      have "zip_from a b cur = Inr ((xs ! cur (oid a), ys ! cur (oid b)) # zip (drop (Suc (cur (oid a))) xs) (drop (Suc (cur (oid b))) ys))"
        by (subst zip_from.simps) (simp add: n1 n2 ih)
      then show ?thesis using ia ib
        by (simp add: Cons_nth_drop_Suc [symmetric])
    qed
  qed
qed

lemma zip_aabb_distinct:
  assumes "oid a \<noteq> oid b" "limits a = Some xs" "limits b = Some ys"
  shows "zip_aabb a b = Inr (zip xs ys)"
  using assms by (simp add: zip_aabb_def zip_from_distinct iter_aabb_def)


lemma zip_from_total:
  assumes "limits a = Some xs" "limits b = Some ys"
  shows "\<exists>zs. zip_from a b cur = Inr zs \<and> set zs \<subseteq> set xs \<times> set ys"
  using assms
proof (induction a b cur rule: zip_from.induct)
  case (1 a b cur)
  show ?case
  proof (cases "cur (oid a) < length xs")
    case False
    then show ?thesis using 1(2-)
      by (subst zip_from.simps) (simp add: next_aabb_Some)
  next
    case ia: True
    let ?cur1 = "cur(oid a := Suc (cur (oid a)))"
    have n1: "next_aabb a cur = Inr (Some (xs ! cur (oid a)), ?cur1)"
      using 1(2) ia by (simp add: next_aabb_Some)
    show ?thesis
    proof (cases "?cur1 (oid b) < length ys")
      case False
      then have "next_aabb b ?cur1 = Inr (None, ?cur1)"
        using 1(3) by (simp only: next_aabb_Some [OF 1(3)] if_False)
      then show ?thesis
        by (subst zip_from.simps) (simp add: n1)
    next
      case ib: True
      let ?cur2 = "?cur1(oid b := Suc (?cur1 (oid b)))"
      have n2: "next_aabb b ?cur1 = Inr (Some (ys ! ?cur1 (oid b)), ?cur2)"
        using ib by (simp only: next_aabb_Some [OF 1(3)] if_True)
      obtain zs where zs: "zip_from a b ?cur2 = Inr zs" "set zs \<subseteq> set xs \<times> set ys"
        using "1.IH" [OF n1 refl refl n2 refl refl 1(2-)] by blast
      have "zip_from a b cur = Inr ((xs ! cur (oid a), ys ! ?cur1 (oid b)) # zs)"
        by (subst zip_from.simps) (simp only: n1 n2 zs sum.case prod.case option.case)
      moreover have "xs ! cur (oid a) \<in> set xs" "ys ! ?cur1 (oid b) \<in> set ys"
        using ia ib by (simp_all only: nth_mem)
      ultimately show ?thesis using zs(2) by auto
    qed
  qed
qed

lemma zip_aabb_total:
  assumes "limits a = Some xs" "limits b = Some ys"
  shows "\<exists>zs. zip_aabb a b = Inr zs \<and> set zs \<subseteq> set xs \<times> set ys"
  unfolding zip_aabb_def using zip_from_total [OF assms] .

lemma iterate_from_Some:
  assumes "limits a = Some xs"
  shows "iterate_from a cur = Inr (drop (cur (oid a)) xs)"
  using assms
proof (induction a cur rule: iterate_from.induct)
  case (1 a cur)
  show ?case
  proof (cases "cur (oid a) < length xs")
    case False
    then show ?thesis using 1(2)
      by (subst iterate_from.simps) (simp add: next_aabb_Some)
  next
    case ia: True
    let ?cur1 = "cur(oid a := Suc (cur (oid a)))"
    have n1: "next_aabb a cur = Inr (Some (xs ! cur (oid a)), ?cur1)"
      using 1(2) ia by (simp add: next_aabb_Some)
    have "iterate_from a ?cur1 = Inr (drop (?cur1 (oid a)) xs)"
      using "1.IH" [OF n1 refl refl 1(2)] .
    then have "iterate_from a cur = Inr (xs ! cur (oid a) # drop (Suc (cur (oid a))) xs)"
      by (subst iterate_from.simps) (simp add: n1)
    then show ?thesis using ia by (simp add: Cons_nth_drop_Suc)
  qed
qed

lemma iterate_Some: "limits a = Some xs \<Longrightarrow> iterate a = Inr xs"
  by (simp add: iterate_def iterate_from_Some iter_aabb_def)

lemma perimeter_total: "limits a = Some xs \<Longrightarrow> \<exists>p. perimeter a = Inr p"
  by (simp add: perimeter_def len_aabb_def iterate_Some Let_def)

lemma perimeter_None: "limits a = None \<Longrightarrow> perimeter a = Inl TypeError"
  by (simp add: perimeter_def len_aabb_def)

lemma overlaps_total:
  "limits a = Some xs \<Longrightarrow> limits b = Some ys \<Longrightarrow> \<exists>r. overlaps a b = Inr r"
  using zip_aabb_total [of a xs b ys] by (auto simp: overlaps_def)

lemma overlaps_loop_all:
  "overlaps_loop zs \<longleftrightarrow> list_all (\<lambda>(p, q). snd p \<ge> fst q \<and> fst p \<le> snd q) zs"
  by (induction zs rule: overlaps_loop.induct) auto

lemma overlaps_distinct:
  assumes "oid a \<noteq> oid b" "limits a = Some xs" "limits b = Some ys" "length xs = length ys"
  shows "overlaps a b = Inr (overlaps_spec xs ys)"
proof -
  have "overlaps_loop (zip xs ys) \<longleftrightarrow> overlaps_spec xs ys"
    using assms(4)
    by (auto simp: overlaps_loop_all overlaps_spec_def list_all_length)
  then show ?thesis
    using assms by (simp add: overlaps_def zip_aabb_distinct)
qed

lemma overlaps_spec_sym: "length xs = length ys \<Longrightarrow> overlaps_spec xs ys = overlaps_spec ys xs"
  by (auto simp: overlaps_spec_def list_all_iff)


lemma merge_lists_of_pair:
  "map (\<lambda>(lims1, lims2). [min (fst lims1) (fst lims2), max (snd lims1) (snd lims2)]) zs
   = map of_pair (map (\<lambda>(lims1, lims2). (min (fst lims1) (fst lims2), max (snd lims1) (snd lims2))) zs)"
  by (simp add: of_pair_def case_prod_beta)

lemma merge_Some:
  assumes "limits a = Some xs" "limits b = Some ys" "zip_aabb a b = Inr zs"
  shows "merge k a b =
     (let ms = map (\<lambda>(lims1, lims2). (min (fst lims1) (fst lims2), max (snd lims1) (snd lims2))) zs
      in if list_all (\<lambda>p. fst p \<le> snd p) ms then Inr \<lparr>oid = k, limits = Some ms\<rparr>
         else Inl AssertionError)"
  using assms
  by (simp add: merge_def merge_lists_of_pair AABB_init_of_pairs Let_def del: map_map)

lemma merge_None_right:
  assumes "limits e = None" "valid_aabb a"
  shows "merge k a e = Inr \<lparr>oid = k, limits = limits a\<rparr>"
proof (cases "limits a")
  case None
  then show ?thesis using assms by (simp add: merge_def AABB_init_def)
next
  case (Some xs)
  then show ?thesis using assms
    by (simp add: merge_def AABB_init_of_pairs valid_aabb_def)
qed

lemma merge_None_left:
  assumes "limits e = None" "valid_aabb a"
  shows "merge k e a = Inr \<lparr>oid = k, limits = limits a\<rparr>"
proof (cases "limits a")
  case None
  then show ?thesis using assms by (simp add: merge_def AABB_init_def)
next
  case (Some xs)
  then show ?thesis using assms
    by (simp add: merge_def AABB_init_of_pairs valid_aabb_def)
qed

lemma merge_nonempty_total:
  assumes "limits a = Some xs" "limits b = Some ys" "valid_aabb a"
  shows "\<exists>ms. merge k a b = Inr \<lparr>oid = k, limits = Some ms\<rparr> \<and> list_all (\<lambda>p. fst p \<le> snd p) ms"
proof -
  obtain zs where zs: "zip_aabb a b = Inr zs" "set zs \<subseteq> set xs \<times> set ys"
    using zip_aabb_total [OF assms(1,2)] by blast
  let ?ms = "map (\<lambda>(lims1, lims2). (min (fst lims1) (fst lims2), max (snd lims1) (snd lims2))) zs"
  have "\<forall>p \<in> set xs. fst p \<le> snd p"
    using assms(1,3) by (simp add: valid_aabb_def list_all_iff)
  with zs(2) have "list_all (\<lambda>p. fst p \<le> snd p) ?ms"
    by (fastforce simp: list_all_iff)
  then show ?thesis
    using merge_Some [OF assms(1,2) zs(1), of k] by (auto simp: Let_def)
qed

lemma merge_total:
  assumes "valid_aabb a" "valid_aabb b"
  shows "\<exists>m. merge k a b = Inr m \<and> oid m = k \<and> valid_aabb m
             \<and> (limits m = None \<longleftrightarrow> limits a = None \<and> limits b = None)"
proof (cases "limits a")
  case None
  then show ?thesis using merge_None_left [OF None assms(2), of k] assms(2)
    by (simp add: valid_aabb_def)
next
  case a: (Some xs)
  show ?thesis
  proof (cases "limits b")
    case None
    then show ?thesis using merge_None_right [OF None assms(1), of k] assms(1) a
      by (simp add: valid_aabb_def)
  next
    case (Some ys)
    then show ?thesis using merge_nonempty_total [OF a Some assms(1), of k] a
      by (auto simp: valid_aabb_def)
  qed
qed

lemma merge_distinct:
  assumes "oid a \<noteq> oid b" "limits a = Some xs" "limits b = Some ys" "length xs = length ys"
    and "valid_aabb a"
  shows "merge k a b = Inr \<lparr>oid = k, limits = Some (merge_spec xs ys)\<rparr>"
proof -
  have z: "zip_aabb a b = Inr (zip xs ys)"
    using assms by (simp add: zip_aabb_distinct)
  have ms: "map (\<lambda>(lims1, lims2). (min (fst lims1) (fst lims2), max (snd lims1) (snd lims2))) (zip xs ys)
        = merge_spec xs ys"
    using assms(4) by (intro nth_equalityI) (simp_all add: merge_spec_def)
  have "\<forall>p \<in> set xs. fst p \<le> snd p"
    using assms(2,5) by (simp add: valid_aabb_def list_all_iff)
  then have "list_all (\<lambda>p. fst p \<le> snd p) (merge_spec xs ys)"
    using assms(4) by (auto simp: merge_spec_def list_all_iff min_le_iff_disj le_max_iff_disj)
  then show ?thesis
    using merge_Some [OF assms(2,3) z, of k] by (simp add: ms Let_def)
qed

text \<open>
  Claim C7. The empty box is an identity of \<^verbatim>\<open>merge\<close>: for every constructed box
  \<open>a\<close> and empty box \<open>e\<close>, \<^verbatim>\<open>merge(a, e)\<close> and \<^verbatim>\<open>merge(e, a)\<close> return a box
  with the limits of \<open>a\<close>, which \<^verbatim>\<open>==\<close> holds equal to \<open>a\<close>, and \<^verbatim>\<open>merge(e, e)\<close>
  returns an empty box. The result is the new object \<open>k\<close> that \<^verbatim>\<open>cls(...)\<close> creates,
  not one of the operands.
\<close>

theorem merge_empty_identity:
  assumes "valid_aabb a" "limits e = None"
  shows "merge k a e = Inr \<lparr>oid = k, limits = limits a\<rparr>
       \<and> merge k e a = Inr \<lparr>oid = k, limits = limits a\<rparr>
       \<and> merge k e e = Inr \<lparr>oid = k, limits = None\<rparr>
       \<and> aabb_eq \<lparr>oid = k, limits = limits a\<rparr> a
       \<and> aabb_eq \<lparr>oid = k, limits = None\<rparr> e"
  using assms merge_None_right [OF assms(2,1), of k] merge_None_left [OF assms(2,1), of k]
    merge_None_left [OF assms(2), of e k]
  by (simp add: aabb_eq_limits valid_aabb_def)

theorem merge_empty_identity_witness:
  "valid_aabb \<lparr>oid = 1, limits = Some [(0, 1), (2, 5)]\<rparr>
   \<and> limits \<lparr>oid = 2, limits = None\<rparr> = None
   \<and> merge 3 \<lparr>oid = 1, limits = Some [(0, 1), (2, 5)]\<rparr> \<lparr>oid = 2, limits = None\<rparr>
       = Inr \<lparr>oid = 3, limits = Some [(0, 1), (2, 5)]\<rparr>
   \<and> merge 3 \<lparr>oid = 2, limits = None\<rparr> \<lparr>oid = 1, limits = Some [(0, 1), (2, 5)]\<rparr>
       = Inr \<lparr>oid = 3, limits = Some [(0, 1), (2, 5)]\<rparr>
   \<and> aabb_eq \<lparr>oid = 3, limits = Some [(0, 1), (2, 5)]\<rparr> \<lparr>oid = 1, limits = Some [(0, 1), (2, 5)]\<rparr>"
  using merge_empty_identity [of "\<lparr>oid = 1, limits = Some [(0, 1), (2, 5)]\<rparr>" "\<lparr>oid = 2, limits = None\<rparr>" 3]
  by (simp add: valid_aabb_def)

lemma overlaps_distinct_sym:
  assumes "oid a \<noteq> oid b" "dim a = Some d" "dim b = Some d"
  shows "overlaps a b = Inr (overlaps_spec (the (limits a)) (the (limits b)))
         \<and> overlaps b a = overlaps a b"
proof -
  obtain xs ys where xy: "limits a = Some xs" "limits b = Some ys" "length xs = length ys"
    using assms(2,3) by (auto simp: dim_def)
  have "overlaps a b = Inr (overlaps_spec xs ys)"
    using overlaps_distinct [OF assms(1) xy] .
  moreover have "overlaps b a = Inr (overlaps_spec ys xs)"
    using overlaps_distinct [of b a ys xs] assms(1) xy by simp
  ultimately show ?thesis
    using overlaps_spec_sym [OF xy(3)] xy by simp
qed

text \<open>
  Claim C6. For two distinct box objects of equal dimensionality \<^verbatim>\<open>overlaps\<close> is the
  closed-interval test of the specification and is symmetric (lemma
  \<open>overlaps_distinct_sym\<close>). For one object tested against itself
  it is not: \<^verbatim>\<open>zip(self, aabb)\<close> then advances one cursor twice per step and pairs
  dimension 0 with dimension 1. The box \<open>[(0, 1), (5, 6)]\<close> passes the test of the
  specification against itself in both dimensions, and \<^verbatim>\<open>a.overlaps(a)\<close> is False.
\<close>

theorem overlaps_same_object:
  "overlaps \<lparr>oid = 1, limits = Some [(0, 1), (5, 6)]\<rparr> \<lparr>oid = 1, limits = Some [(0, 1), (5, 6)]\<rparr>
     = Inr False
   \<and> overlaps_spec [(0, 1), (5, 6)] [(0, 1), (5, 6)]"
  by code_simp

section \<open>The insertion rule at an internal node\<close>

text \<open>
  Claim C3. At an internal node whose box is initialised, with the costs of the
  specification \<open>dc\<close> (direct), \<open>pd\<close> (pushdown), \<open>cl\<close> and \<open>cr\<close> (left and right
  child) computed by \<^verbatim>\<open>merge\<close> and \<^verbatim>\<open>perimeter\<close>, \<^verbatim>\<open>add\<close> splits the node in
  place iff \<open>dc < min cl cr\<close>, otherwise recurses into the left child iff \<open>cl < cr\<close> and
  into the right child otherwise, so a tie goes to the right.
\<close>

theorem add_internal_rule:
  assumes "limits a \<noteq> None"
    and "direct_cost k a b = Inr dc" and "pushdown k a b = Inr pd"
    and "cost_child k lt b pd = Inr cl" and "cost_child k rt b pd = Inr cr"
  shows "add (Node a v (Some lt) (Some rt)) b x k =
     (if dc < min cl cr then split_node (Node a v (Some lt) (Some rt)) b x k
      else if cl < cr then descend_left (Node a v (Some lt) (Some rt)) b x k
      else descend_right (Node a v (Some lt) (Some rt)) b x k)"
proof -
  obtain m pm p where m: "merge k a b = Inr m" "perimeter m = Inr pm" "perimeter a = Inr p"
    "dc = 2 * pm" "pd = 2 * (pm - p)"
    using assms(2,3) by (auto simp: direct_cost_def pushdown_def bind_eq_Inr)
  obtain lm lp where l: "merge k (aabb lt) b = Inr lm" "perimeter lm = Inr lp"
    "(if is_leaf lt then Inr (lp + pd) else bind (perimeter (aabb lt)) (\<lambda>pc. Inr (lp + pd - pc))) = Inr cl"
    using assms(4) by (auto simp: cost_child_def bind_eq_Inr)
  obtain rm rp where r: "merge k (aabb rt) b = Inr rm" "perimeter rm = Inr rp"
    "(if is_leaf rt then Inr (rp + pd) else bind (perimeter (aabb rt)) (\<lambda>pc. Inr (rp + pd - pc))) = Inr cr"
    using assms(5) by (auto simp: cost_child_def bind_eq_Inr)
  have costs: "add_costs k (Node a v (Some lt) (Some rt)) b = Inr (dc, cl, cr)"
    using l(3) r(3)
    by (cases "is_leaf lt"; cases "is_leaf rt")
       (auto simp: add_costs_def m l(1,2) r(1,2) Let_def child_def bind_eq_Inr)
  have ne: "\<not> aabb_eq a \<lparr>oid = k, limits = None\<rparr>"
    using assms(1) by (simp add: aabb_eq_limits)
  show ?thesis
  proof (cases "dc < min cl cr")
    case True
    then show ?thesis
      by (simp add: ne costs split_node_def recompute_def split: prod.splits)
  next
    case nsplit: False
    show ?thesis
    proof (cases "cl < cr")
      case True
      then show ?thesis using nsplit
        by (simp add: ne costs descend_left_def child_def recompute_def bind_def
              split: sum.splits prod.splits)
    next
      case False
      then show ?thesis using nsplit
        by (simp add: ne costs descend_right_def child_def recompute_def bind_def
              split: sum.splits prod.splits)
    qed
  qed
qed



theorem add_internal_rule_witness:
  "direct_cost 20 \<lparr>oid = 11, limits = Some [(0, 10), (0, 10)]\<rparr> \<lparr>oid = 3, limits = Some [(1, 2), (1, 2)]\<rparr> = Inr 80
   \<and> pushdown 20 \<lparr>oid = 11, limits = Some [(0, 10), (0, 10)]\<rparr> \<lparr>oid = 3, limits = Some [(1, 2), (1, 2)]\<rparr> = Inr 0
   \<and> cost_child 20 (Node \<lparr>oid = 10, limits = Some [(0, 1), (0, 1)]\<rparr> (Some (7::nat)) None None)
        \<lparr>oid = 3, limits = Some [(1, 2), (1, 2)]\<rparr> 0 = Inr 8
   \<and> cost_child 20 (Node \<lparr>oid = 2, limits = Some [(9, 10), (9, 10)]\<rparr> (Some (8::nat)) None None)
        \<lparr>oid = 3, limits = Some [(1, 2), (1, 2)]\<rparr> 0 = Inr 36
   \<and> add (Node \<lparr>oid = 11, limits = Some [(0, 10), (0, 10)]\<rparr> None
          (Some (Node \<lparr>oid = 10, limits = Some [(0, 1), (0, 1)]\<rparr> (Some (7::nat)) None None))
          (Some (Node \<lparr>oid = 2, limits = Some [(9, 10), (9, 10)]\<rparr> (Some 8) None None)))
        \<lparr>oid = 3, limits = Some [(1, 2), (1, 2)]\<rparr> (Some 9) 20
     = descend_left (Node \<lparr>oid = 11, limits = Some [(0, 10), (0, 10)]\<rparr> None
          (Some (Node \<lparr>oid = 10, limits = Some [(0, 1), (0, 1)]\<rparr> (Some (7::nat)) None None))
          (Some (Node \<lparr>oid = 2, limits = Some [(9, 10), (9, 10)]\<rparr> (Some 8) None None)))
        \<lparr>oid = 3, limits = Some [(1, 2), (1, 2)]\<rparr> (Some 9) 20
   \<and> direct_cost 20 \<lparr>oid = 11, limits = Some [(0, 10)]\<rparr> \<lparr>oid = 3, limits = Some [(1, 2)]\<rparr> = Inr 0
   \<and> pushdown 20 \<lparr>oid = 11, limits = Some [(0, 10)]\<rparr> \<lparr>oid = 3, limits = Some [(1, 2)]\<rparr> = Inr 0
   \<and> cost_child 20 (Node \<lparr>oid = 10, limits = Some [(0, 1)]\<rparr> (Some (7::nat)) None None)
        \<lparr>oid = 3, limits = Some [(1, 2)]\<rparr> 0 = Inr 0
   \<and> cost_child 20 (Node \<lparr>oid = 2, limits = Some [(9, 10)]\<rparr> (Some (8::nat)) None None)
        \<lparr>oid = 3, limits = Some [(1, 2)]\<rparr> 0 = Inr 0
   \<and> add (Node \<lparr>oid = 11, limits = Some [(0, 10)]\<rparr> None
          (Some (Node \<lparr>oid = 10, limits = Some [(0, 1)]\<rparr> (Some (7::nat)) None None))
          (Some (Node \<lparr>oid = 2, limits = Some [(9, 10)]\<rparr> (Some 8) None None)))
        \<lparr>oid = 3, limits = Some [(1, 2)]\<rparr> (Some 9) 20
     = descend_right (Node \<lparr>oid = 11, limits = Some [(0, 10)]\<rparr> None
          (Some (Node \<lparr>oid = 10, limits = Some [(0, 1)]\<rparr> (Some (7::nat)) None None))
          (Some (Node \<lparr>oid = 2, limits = Some [(9, 10)]\<rparr> (Some 8) None None)))
        \<lparr>oid = 3, limits = Some [(1, 2)]\<rparr> (Some 9) 20"
proof -
  have a: "limits \<lparr>oid = 11, limits = Some [(0, 10), (0, 10)]\<rparr> \<noteq> None"
          "limits \<lparr>oid = 11, limits = Some [(0, 10)]\<rparr> \<noteq> None"
    by simp_all
  have d2: "direct_cost 20 \<lparr>oid = 11, limits = Some [(0, 10), (0, 10)]\<rparr> \<lparr>oid = 3, limits = Some [(1, 2), (1, 2)]\<rparr> = Inr 80"
    by code_simp
  have p2: "pushdown 20 \<lparr>oid = 11, limits = Some [(0, 10), (0, 10)]\<rparr> \<lparr>oid = 3, limits = Some [(1, 2), (1, 2)]\<rparr> = Inr 0"
    by code_simp
  have l2: "cost_child 20 (Node \<lparr>oid = 10, limits = Some [(0, 1), (0, 1)]\<rparr> (Some (7::nat)) None None)
        \<lparr>oid = 3, limits = Some [(1, 2), (1, 2)]\<rparr> 0 = Inr 8"
    by code_simp
  have r2: "cost_child 20 (Node \<lparr>oid = 2, limits = Some [(9, 10), (9, 10)]\<rparr> (Some (8::nat)) None None)
        \<lparr>oid = 3, limits = Some [(1, 2), (1, 2)]\<rparr> 0 = Inr 36"
    by code_simp
  have d1: "direct_cost 20 \<lparr>oid = 11, limits = Some [(0, 10)]\<rparr> \<lparr>oid = 3, limits = Some [(1, 2)]\<rparr> = Inr 0"
    by code_simp
  have p1: "pushdown 20 \<lparr>oid = 11, limits = Some [(0, 10)]\<rparr> \<lparr>oid = 3, limits = Some [(1, 2)]\<rparr> = Inr 0"
    by code_simp
  have l1: "cost_child 20 (Node \<lparr>oid = 10, limits = Some [(0, 1)]\<rparr> (Some (7::nat)) None None)
        \<lparr>oid = 3, limits = Some [(1, 2)]\<rparr> 0 = Inr 0"
    by code_simp
  have r1: "cost_child 20 (Node \<lparr>oid = 2, limits = Some [(9, 10)]\<rparr> (Some (8::nat)) None None)
        \<lparr>oid = 3, limits = Some [(1, 2)]\<rparr> 0 = Inr 0"
    by code_simp
  show ?thesis
    using add_internal_rule [OF a(1) d2 p2 l2 r2, of None "Some 9"]
          add_internal_rule [OF a(2) d1 p1 l1 r1, of None "Some 9"]
    by (simp add: d2 p2 l2 r2 d1 p1 l1 r1 del: add.simps)
qed

section \<open>Trees built by insertion\<close>

text \<open>
  \<^verbatim>\<open>deepcopy\<close> changes identities only; \<^verbatim>\<open>add\<close> of a constructed, non-empty box
  to a good tree returns a good tree, whatever the identities are.
\<close>

lemma deepcopy_aabb_limits:
  "deepcopy_aabb a s = (a', s') \<Longrightarrow> limits a' = limits a"
  by (auto simp: deepcopy_aabb_def split: option.splits)

lemma deepcopy_tree_strip: "strip (fst (deepcopy_tree t s)) = strip t"
proof (induction t arbitrary: s)
  case (Node a v l r)
  obtain a' s1 where a: "deepcopy_aabb a s = (a', s1)"
    by (cases "deepcopy_aabb a s")
  have al: "a'\<lparr>oid := 0\<rparr> = a\<lparr>oid := 0\<rparr>"
    using deepcopy_aabb_limits [OF a] by simp
  obtain l' s2 where l: "(case l of None \<Rightarrow> (None, s1)
               | Some lt \<Rightarrow> (case deepcopy_tree lt s1 of (lt', s') \<Rightarrow> (Some lt', s'))) = (l', s2)"
    by (cases "(case l of None \<Rightarrow> (None, s1)
               | Some lt \<Rightarrow> (case deepcopy_tree lt s1 of (lt', s') \<Rightarrow> (Some lt', s')))")
  obtain r' s3 where r: "(case r of None \<Rightarrow> (None, s2)
               | Some rt \<Rightarrow> (case deepcopy_tree rt s2 of (rt', s') \<Rightarrow> (Some rt', s'))) = (r', s3)"
    by (cases "(case r of None \<Rightarrow> (None, s2)
               | Some rt \<Rightarrow> (case deepcopy_tree rt s2 of (rt', s') \<Rightarrow> (Some rt', s')))")
  have ls: "map_option strip l' = map_option strip l"
  proof (cases l)
    case None
    then show ?thesis using l by simp
  next
    case (Some lt)
    then have "l' = Some (fst (deepcopy_tree lt s1))"
      using l by (auto split: prod.splits)
    then show ?thesis using Node.IH(1) [of lt s1] Some by simp
  qed
  have rs: "map_option strip r' = map_option strip r"
  proof (cases r)
    case None
    then show ?thesis using r by simp
  next
    case (Some rt)
    then have "r' = Some (fst (deepcopy_tree rt s2))"
      using r by (auto split: prod.splits)
    then show ?thesis using Node.IH(2) [of rt s2] Some by simp
  qed
  have "fst (deepcopy_tree (Node a v l r) s) = Node a' v l' r'"
    by (simp add: a l r)
  then show ?case by (simp add: al ls rs)
qed

lemma deepcopy_strip: "deepcopy t k = (cp, k1) \<Longrightarrow> strip cp = strip t"
  using deepcopy_tree_strip [of t "(Map.empty, k)"]
  by (auto simp: deepcopy_def split: prod.splits)

lemma good_strip: "good (strip t) = good t"
proof (induction t)
  case (Node a v l r)
  have "valid_aabb (a\<lparr>oid := 0\<rparr>) = valid_aabb a"
    by (simp add: valid_aabb_def)
  then show ?case using Node.IH
    by (cases l; cases r) simp_all
qed

lemma good_strip_eq: "strip t' = strip t \<Longrightarrow> good t' = good t"
  using good_strip [of t] good_strip [of t'] by simp

lemma limits_strip_eq: "strip t' = strip t \<Longrightarrow> limits (aabb t') = limits (aabb t)"
  by (cases t; cases t') (auto dest: arg_cong [where f = limits])

lemma good_aabb: "good t \<Longrightarrow> limits (aabb t) \<noteq> None \<and> valid_aabb (aabb t)"
  by (cases t) simp

lemma good_shape:
  "good t \<Longrightarrow> (left t = None \<and> right t = None)
      \<or> (\<exists>lt rt. left t = Some lt \<and> right t = Some rt \<and> good lt \<and> good rt)"
  by (cases t) (auto split: option.splits)

lemma cost_total:
  assumes "limits c \<noteq> None" "valid_aabb c" "limits b \<noteq> None"
  shows "\<exists>m p. merge k c b = Inr m \<and> perimeter m = Inr p"
proof -
  obtain xs ys where "limits c = Some xs" "limits b = Some ys"
    using assms by auto
  then obtain ms where "merge k c b = Inr \<lparr>oid = k, limits = Some ms\<rparr>"
    using merge_nonempty_total [of c xs b ys k] assms(2) by blast
  then show ?thesis
    using perimeter_total [of "\<lparr>oid = k, limits = Some ms\<rparr>" ms] by auto
qed

lemma add_costs_total:
  assumes "limits a \<noteq> None" "valid_aabb a" "good lt" "good rt" "limits b \<noteq> None"
  shows "\<exists>c. add_costs k (Node a v (Some lt) (Some rt)) b = Inr c"
proof -
  obtain p where p: "perimeter a = Inr p"
    using assms(1) perimeter_total [of a] by auto
  obtain m pm where m: "merge k a b = Inr m" "perimeter m = Inr pm"
    using cost_total [OF assms(1,2,5)] by blast
  obtain lm lp where l: "merge k (aabb lt) b = Inr lm" "perimeter lm = Inr lp"
    using cost_total [of "aabb lt" b k] good_aabb [OF assms(3)] assms(5) by blast
  obtain rm rp where r: "merge k (aabb rt) b = Inr rm" "perimeter rm = Inr rp"
    using cost_total [of "aabb rt" b k] good_aabb [OF assms(4)] assms(5) by blast
  obtain pl where pl: "perimeter (aabb lt) = Inr pl"
    using good_aabb [OF assms(3)] perimeter_total [of "aabb lt"] by auto
  obtain pr where pr: "perimeter (aabb rt) = Inr pr"
    using good_aabb [OF assms(4)] perimeter_total [of "aabb rt"] by auto
  show ?thesis
    by (simp add: add_costs_def p m l r pl pr child_def Let_def)
qed

text \<open>
  At an internal node of a good tree the costs of the specification are all defined.
\<close>

lemma costs_defined:
  assumes "limits a \<noteq> None" "valid_aabb a" "good lt" "good rt" "limits b \<noteq> None"
  shows "\<exists>dc pd cl cr. direct_cost k a b = Inr dc \<and> pushdown k a b = Inr pd
           \<and> cost_child k lt b pd = Inr cl \<and> cost_child k rt b pd = Inr cr"
proof -
  obtain p where p: "perimeter a = Inr p"
    using assms(1) perimeter_total [of a] by auto
  obtain m pm where m: "merge k a b = Inr m" "perimeter m = Inr pm"
    using cost_total [OF assms(1,2,5)] by blast
  obtain lm lp where l: "merge k (aabb lt) b = Inr lm" "perimeter lm = Inr lp"
    using cost_total [of "aabb lt" b k] good_aabb [OF assms(3)] assms(5) by blast
  obtain rm rp where r: "merge k (aabb rt) b = Inr rm" "perimeter rm = Inr rp"
    using cost_total [of "aabb rt" b k] good_aabb [OF assms(4)] assms(5) by blast
  obtain pl where pl: "perimeter (aabb lt) = Inr pl"
    using good_aabb [OF assms(3)] perimeter_total [of "aabb lt"] by auto
  obtain pr where pr: "perimeter (aabb rt) = Inr pr"
    using good_aabb [OF assms(4)] perimeter_total [of "aabb rt"] by auto
  show ?thesis
    by (simp add: direct_cost_def pushdown_def cost_child_def p m l r pl pr)
qed

lemma recompute_good:
  assumes "good lt" "good rt"
  shows "\<exists>t' k'. recompute v lt rt k = Inr (t', k') \<and> good t'"
proof -
  obtain xs ys where "limits (aabb lt) = Some xs" "limits (aabb rt) = Some ys"
    using good_aabb [OF assms(1)] good_aabb [OF assms(2)] by auto
  then obtain ms where "merge k (aabb lt) (aabb rt) = Inr \<lparr>oid = k, limits = Some ms\<rparr>"
      "list_all (\<lambda>p. fst p \<le> snd p) ms"
    using merge_nonempty_total [of "aabb lt" xs "aabb rt" ys k] good_aabb [OF assms(1)] by blast
  then show ?thesis using assms
    by (simp add: recompute_def valid_aabb_def)
qed

lemma good_leaf: "limits b \<noteq> None \<Longrightarrow> valid_aabb b \<Longrightarrow> good (Node b x None None)"
  by simp

lemma split_good:
  assumes "good t" "limits b \<noteq> None" "valid_aabb b" "deepcopy t k = (cp, k1)"
  shows "\<exists>t' k'. recompute v cp (Node b x None None) k1 = Inr (t', k') \<and> good t'"
proof -
  have "good cp"
    using good_strip_eq [OF deepcopy_strip [OF assms(4)]] assms(1) by simp
  then show ?thesis
    using recompute_good [of cp "Node b x None None" v k1] good_leaf [OF assms(2,3)] by simp
qed

lemma add_good:
  assumes "limits b \<noteq> None" "valid_aabb b"
  shows "good t \<Longrightarrow> \<exists>t' k'. add t b x k = Inr (t', k') \<and> good t'"
proof (induction t arbitrary: k)
  case (Node a v l r)
  have a: "limits a \<noteq> None" "valid_aabb a"
    using Node.prems by simp_all
  have ne: "\<not> aabb_eq a \<lparr>oid = k, limits = None\<rparr>"
    using a(1) by (simp add: aabb_eq_limits)
  show ?case
  proof (cases l)
    case None
    then have r: "r = None" using Node.prems by simp
    obtain cp k1 where cp: "deepcopy (Node a v None None) k = (cp, k1)"
      by (cases "deepcopy (Node a v None None) k")
    have gcp: "good cp"
      using good_strip_eq [OF deepcopy_strip [OF cp]] a by simp
    obtain xs ys where "limits a = Some xs" "limits b = Some ys"
      using a(1) assms(1) by auto
    then obtain ms where ms: "merge k1 a b = Inr \<lparr>oid = k1, limits = Some ms\<rparr>"
      "list_all (\<lambda>p. fst p \<le> snd p) ms"
      using merge_nonempty_total [of a xs b ys k1] a(2) by blast
    show ?thesis
      using ne gcp assms by (simp add: None r cp ms valid_aabb_def)
  next
    case (Some lt)
    then obtain rt where rt: "r = Some rt" and g: "good lt" "good rt"
      using Node.prems by (auto split: option.splits)
    obtain c where c: "add_costs k (Node a v (Some lt) (Some rt)) b = Inr c"
      using add_costs_total [OF a g assms(1)] by blast
    obtain npc cl cr where c3: "c = (npc, cl, cr)"
      by (cases c)
    show ?thesis
    proof (cases "npc < min cl cr")
      case True
      obtain cp k1 where cp: "deepcopy (Node a v (Some lt) (Some rt)) k = (cp, k1)"
        by (cases "deepcopy (Node a v (Some lt) (Some rt)) k")
      have "good (Node a v (Some lt) (Some rt))"
        using a g by simp
      from split_good [OF this assms cp, of None x] show ?thesis
        using ne True by (simp add: Some rt c c3 cp)
    next
      case nsplit: False
      show ?thesis
      proof (cases "cl < cr")
        case True
        obtain lt' k1 where l': "add lt b x k = Inr (lt', k1)" "good lt'"
          using Node.IH(1) [of lt k] g(1) Some by auto
        from recompute_good [OF l'(2) g(2), of v k1] show ?thesis
          using ne True nsplit by (simp add: Some rt c c3 l'(1))
      next
        case False
        obtain rt' k1 where r': "add rt b x k = Inr (rt', k1)" "good rt'"
          using Node.IH(2) [of rt k] g(2) rt by auto
        from recompute_good [OF g(1) r'(2), of v k1] show ?thesis
          using ne False nsplit by (simp add: Some rt c c3 r'(1))
      qed
    qed
  qed
qed

lemma add_all_good:
  assumes "list_all (\<lambda>(b, x). limits b \<noteq> None \<and> valid_aabb b) ps"
  shows "good t \<Longrightarrow> \<exists>t' k'. add_all t ps k = Inr (t', k') \<and> good t'"
  using assms
proof (induction ps arbitrary: t k)
  case Nil
  then show ?case by simp
next
  case (Cons p ps)
  obtain b x where p: "p = (b, x)" by (cases p)
  then have b: "limits b \<noteq> None" "valid_aabb b"
    using Cons.prems(2) by simp_all
  obtain t1 k1 where t1: "add t b x k = Inr (t1, k1)" "good t1"
    using add_good [OF b Cons.prems(1)] by blast
  show ?case
    using Cons.IH [OF t1(2), of k1] Cons.prems(2) by (simp add: p t1(1))
qed

lemma add_empty_tree:
  "add empty_tree b x k = Inr (Node b x None None, k)"
  by (simp add: empty_tree_def default_aabb_def aabb_eq_limits)

lemma add_all_empty_tree:
  assumes "list_all (\<lambda>(b, x). limits b \<noteq> None \<and> valid_aabb b) ps"
  shows "\<exists>t k'. add_all empty_tree ps k = Inr (t, k') \<and> (if ps = [] then t = empty_tree else good t)"
proof (cases ps)
  case Nil
  then show ?thesis by simp
next
  case (Cons p rest)
  obtain b x where p: "p = (b, x)" by (cases p)
  have "good (Node b x None None)"
    using assms Cons p by simp
  from add_all_good [OF _ this, of rest k] show ?thesis
    using assms Cons p by (simp add: add_empty_tree del: add.simps)
qed

lemma queries_good:
  assumes "limits q \<noteq> None"
  shows "good t \<Longrightarrow>
     \<exists>r vs. does_overlap t q = Inr r \<and> overlap_values t q = Inr vs \<and> (r \<longleftrightarrow> vs \<noteq> [])"
proof (induction t)
  case (Node a v l r)
  obtain ys where q: "limits q = Some ys" using assms by auto
  show ?case
  proof (cases l)
    case None
    then have r: "r = None" using Node.prems by simp
    obtain xs where "limits a = Some xs" using Node.prems by auto
    then obtain ov where "overlaps a q = Inr ov"
      using overlaps_total [of a xs q ys] q by auto
    then show ?thesis by (cases ov) (auto simp: None r)
  next
    case (Some lt)
    then obtain rt where rt: "r = Some rt" and g: "good lt" "good rt"
      using Node.prems by (auto split: option.splits)
    obtain lo where lo: "overlaps (aabb lt) q = Inr lo"
      using overlaps_total [of "aabb lt" _ q ys] q good_aabb [OF g(1)] by auto
    obtain ro where ro: "overlaps (aabb rt) q = Inr ro"
      using overlaps_total [of "aabb rt" _ q ys] q good_aabb [OF g(2)] by auto
    obtain lr lvs where l: "does_overlap lt q = Inr lr" "overlap_values lt q = Inr lvs"
      "lr \<longleftrightarrow> lvs \<noteq> []"
      using Node.IH(1) [of lt] g(1) Some by auto
    obtain rr rvs where r: "does_overlap rt q = Inr rr" "overlap_values rt q = Inr rvs"
      "rr \<longleftrightarrow> rvs \<noteq> []"
      using Node.IH(2) [of rt] g(2) rt by auto
    show ?thesis
      using l(3) r(3)
      by (cases lo; cases ro; cases lr; cases rr) (auto simp: Some rt lo ro l(1,2) r(1,2))
  qed
qed

text \<open>
  Claim C4. For every sequence of insertions of constructed boxes of one dimensionality
  \<open>d\<close> into the empty tree (any identities, any order) and every query box of
  dimensionality \<open>d\<close>, the insertions succeed, and on the resulting tree
  \<^verbatim>\<open>does_overlap\<close> returns True iff \<^verbatim>\<open>overlap_values\<close> returns a non-empty list.
  After at least one insertion both queries return; on the empty tree both raise.
\<close>

theorem does_overlap_consistent:
  assumes "list_all (\<lambda>(b, x). valid_aabb b \<and> dim b = Some d) ps" and "dim q = Some d"
  shows "\<exists>t k'. add_all empty_tree ps k = Inr (t, k')
     \<and> ((does_overlap t q = Inr True) = (\<exists>vs. overlap_values t q = Inr vs \<and> vs \<noteq> []))
     \<and> (ps = [] \<or> (\<exists>r vs. does_overlap t q = Inr r \<and> overlap_values t q = Inr vs))"
proof -
  have ps: "list_all (\<lambda>(b, x). limits b \<noteq> None \<and> valid_aabb b) ps"
    using assms(1) by (auto simp: list_all_iff dim_def)
  have q: "limits q \<noteq> None"
    using assms(2) by (auto simp: dim_def)
  obtain t k' where t: "add_all empty_tree ps k = Inr (t, k')"
    "if ps = [] then t = empty_tree else good t"
    using add_all_empty_tree [OF ps, of k] by blast
  show ?thesis
  proof (cases "ps = []")
    case True
    then have "t = empty_tree" using t(2) by simp
    then show ?thesis
      using t(1) True by (simp add: empty_tree_def default_aabb_def overlaps_None)
  next
    case False
    then have "good t" using t(2) by simp
    from queries_good [OF q this] show ?thesis
      using t(1) by auto
  qed
qed

theorem does_overlap_consistent_witness:
  "list_all (\<lambda>(b, x). valid_aabb b \<and> dim b = Some 2)
     [(\<lparr>oid = 1, limits = Some [(0, 1), (0, 1)]\<rparr>, Some (7::nat)),
      (\<lparr>oid = 2, limits = Some [(5, 6), (5, 6)]\<rparr>, Some 8)]
   \<and> dim \<lparr>oid = 3, limits = Some [(1, 2), (0, 3)]\<rparr> = Some 2
   \<and> (\<exists>t k'. add_all empty_tree
         [(\<lparr>oid = 1, limits = Some [(0, 1), (0, 1)]\<rparr>, Some (7::nat)),
          (\<lparr>oid = 2, limits = Some [(5, 6), (5, 6)]\<rparr>, Some 8)] 4 = Inr (t, k')
       \<and> (\<exists>r vs. does_overlap t \<lparr>oid = 3, limits = Some [(1, 2), (0, 3)]\<rparr> = Inr r
             \<and> overlap_values t \<lparr>oid = 3, limits = Some [(1, 2), (0, 3)]\<rparr> = Inr vs
             \<and> (r = (vs \<noteq> []))))"
proof -
  have h1: "list_all (\<lambda>(b, x). valid_aabb b \<and> dim b = Some 2)
     [(\<lparr>oid = 1, limits = Some [(0, 1), (0, 1)]\<rparr>, Some (7::nat)),
      (\<lparr>oid = 2, limits = Some [(5, 6), (5, 6)]\<rparr>, Some 8)]"
    by (simp add: valid_aabb_def dim_def)
  have h2: "dim \<lparr>oid = 3, limits = Some [(1, 2), (0, 3)]\<rparr> = Some 2"
    by (simp add: dim_def)
  show ?thesis
    using does_overlap_consistent [OF h1 h2, of 4] h1 h2 by auto
qed

section \<open>Trees built from distinct box objects\<close>

text \<open>
  \<^verbatim>\<open>deepcopy\<close> relabels the box objects of a tree injectively with new identities.
\<close>

lemma relabel_cong: "(\<And>i. i \<in> oids t \<Longrightarrow> f i = g i) \<Longrightarrow> relabel f t = relabel g t"
proof (induction t)
  case (Node a v l r)
  have "map_option (relabel f) l = map_option (relabel g) l"
    using Node.IH(1) Node.prems by (cases l) auto
  moreover have "map_option (relabel f) r = map_option (relabel g) r"
    using Node.IH(2) Node.prems by (cases r) auto
  ultimately show ?case using Node.prems by simp
qed

lemma deepcopy_aabb_spec:
  assumes "deepcopy_aabb a (m, n) = (a', (m1, n1))"
    and "inj_on m (dom m)" "ran m \<subseteq> {k0..<n}" "k0 \<le> n"
  shows "inj_on m1 (dom m1) \<and> ran m1 \<subseteq> {k0..<n1} \<and> m \<subseteq>\<^sub>m m1 \<and> n \<le> n1
         \<and> oid a \<in> dom m1 \<and> a' = a\<lparr>oid := the (m1 (oid a))\<rparr>"
proof (cases "m (oid a)")
  case (Some j)
  then show ?thesis using assms by (auto simp: deepcopy_aabb_def)
next
  case None
  then have eq: "a' = a\<lparr>oid := n\<rparr>" "m1 = m(oid a \<mapsto> n)" "n1 = Suc n"
    using assms(1) by (auto simp: deepcopy_aabb_def)
  have fresh: "n \<notin> ran m" using assms(3) by auto
  have "inj_on (m(oid a \<mapsto> n)) (dom (m(oid a \<mapsto> n)))"
  proof (rule inj_onI)
    fix x y assume xy: "x \<in> dom (m(oid a \<mapsto> n))" "y \<in> dom (m(oid a \<mapsto> n))"
      "(m(oid a \<mapsto> n)) x = (m(oid a \<mapsto> n)) y"
    show "x = y"
    proof (cases "x = oid a"; cases "y = oid a")
      assume "x \<noteq> oid a" "y \<noteq> oid a"
      then show ?thesis using xy assms(2) by (auto dest: inj_onD)
    next
      assume "x = oid a" "y \<noteq> oid a"
      then have "m y = Some n" using xy by auto
      then show ?thesis using fresh by (auto simp: ran_def)
    next
      assume "x \<noteq> oid a" "y = oid a"
      then have "m x = Some n" using xy by auto
      then show ?thesis using fresh by (auto simp: ran_def)
    qed simp
  qed
  moreover have "ran (m(oid a \<mapsto> n)) \<subseteq> {k0..<Suc n}"
    using assms(3,4) None by (auto simp: ran_def split: if_splits)
  moreover have "m \<subseteq>\<^sub>m m(oid a \<mapsto> n)"
    using None by (auto simp: map_le_def)
  ultimately show ?thesis by (simp add: eq)
qed


lemma map_le_the: "m \<subseteq>\<^sub>m m' \<Longrightarrow> i \<in> dom m \<Longrightarrow> the (m' i) = the (m i)"
  by (auto simp: map_le_def dom_def)

lemma deepcopy_tree_spec:
  assumes "deepcopy_tree t (m, n) = (t', (m', n'))"
    and "inj_on m (dom m)" "ran m \<subseteq> {k0..<n}" "k0 \<le> n"
  shows "inj_on m' (dom m') \<and> ran m' \<subseteq> {k0..<n'} \<and> m \<subseteq>\<^sub>m m' \<and> n \<le> n'
         \<and> oids t \<subseteq> dom m' \<and> t' = relabel (\<lambda>i. the (m' i)) t"
  using assms
proof (induction t arbitrary: m n t' m' n')
  case (Node a v l r)
  obtain a' m1 n1 where a: "deepcopy_aabb a (m, n) = (a', (m1, n1))"
    by (metis prod_cases3)
  have A: "inj_on m1 (dom m1)" "ran m1 \<subseteq> {k0..<n1}" "m \<subseteq>\<^sub>m m1" "n \<le> n1"
    "oid a \<in> dom m1" "a' = a\<lparr>oid := the (m1 (oid a))\<rparr>"
    using deepcopy_aabb_spec [OF a Node.prems(2,3,4)] by simp_all
  have k1: "k0 \<le> n1" using A(4) Node.prems(4) by simp
  obtain l' m2 n2 where l: "(case l of None \<Rightarrow> (None, (m1, n1))
       | Some lt \<Rightarrow> (case deepcopy_tree lt (m1, n1) of (lt', s') \<Rightarrow> (Some lt', s'))) = (l', (m2, n2))"
    by (metis prod_cases3)
  have L: "inj_on m2 (dom m2) \<and> ran m2 \<subseteq> {k0..<n2} \<and> m1 \<subseteq>\<^sub>m m2 \<and> n1 \<le> n2
        \<and> (case l of None \<Rightarrow> {} | Some lt \<Rightarrow> oids lt) \<subseteq> dom m2
        \<and> l' = map_option (relabel (\<lambda>i. the (m2 i))) l"
  proof (cases l)
    case None
    then show ?thesis using l A by simp
  next
    case (Some lt)
    then obtain lt' where lt': "deepcopy_tree lt (m1, n1) = (lt', (m2, n2))" "l' = Some lt'"
      using l by (auto split: prod.splits)
    show ?thesis
      using Node.IH(1) [of lt m1 n1 lt' m2 n2] Some lt' A(1,2) k1 by simp
  qed
  have k2: "k0 \<le> n2" using L k1 by simp
  obtain r' m3 n3 where r: "(case r of None \<Rightarrow> (None, (m2, n2))
       | Some rt \<Rightarrow> (case deepcopy_tree rt (m2, n2) of (rt', s') \<Rightarrow> (Some rt', s'))) = (r', (m3, n3))"
    by (metis prod_cases3)
  have R: "inj_on m3 (dom m3) \<and> ran m3 \<subseteq> {k0..<n3} \<and> m2 \<subseteq>\<^sub>m m3 \<and> n2 \<le> n3
        \<and> (case r of None \<Rightarrow> {} | Some rt \<Rightarrow> oids rt) \<subseteq> dom m3
        \<and> r' = map_option (relabel (\<lambda>i. the (m3 i))) r"
  proof (cases r)
    case None
    then show ?thesis using r L by simp
  next
    case (Some rt)
    then obtain rt' where rt': "deepcopy_tree rt (m2, n2) = (rt', (m3, n3))" "r' = Some rt'"
      using r by (auto split: prod.splits)
    show ?thesis
      using Node.IH(2) [of rt m2 n2 rt' m3 n3] Some rt' L k2 by simp
  qed
  have res: "t' = Node a' v l' r'" "m' = m3" "n' = n3"
    using Node.prems(1) by (simp_all add: a l r)
  have m13: "m1 \<subseteq>\<^sub>m m3" using L R by (blast intro: map_le_trans)
  have "m \<subseteq>\<^sub>m m3" using A(3) m13 by (blast intro: map_le_trans)
  moreover have "n \<le> n3" using A(4) L R by simp
  moreover have dl: "(case l of None \<Rightarrow> {} | Some lt \<Rightarrow> oids lt) \<subseteq> dom m3"
  proof -
    have "dom m2 \<subseteq> dom m3" using R by (simp add: map_le_implies_dom_le)
    then show ?thesis using L by blast
  qed
  moreover have da: "oid a \<in> dom m3"
    using A(5) map_le_implies_dom_le [OF m13] by blast
  moreover have "a' = a\<lparr>oid := the (m3 (oid a))\<rparr>"
    using A(5,6) map_le_the [OF m13] by simp
  moreover have "l' = map_option (relabel (\<lambda>i. the (m3 i))) l"
  proof (cases l)
    case None
    then show ?thesis using L by simp
  next
    case (Some lt)
    have "relabel (\<lambda>i. the (m2 i)) lt = relabel (\<lambda>i. the (m3 i)) lt"
    proof (rule relabel_cong)
      fix i assume "i \<in> oids lt"
      then have "i \<in> dom m2" using L Some by auto
      then show "the (m2 i) = the (m3 i)" using map_le_the [of m2 m3 i] R by simp
    qed
    then show ?thesis using L Some by simp
  qed
  ultimately show ?case
    using R by (auto simp: res)
qed

lemma deepcopy_spec:
  assumes "deepcopy t k = (cp, k1)"
  shows "\<exists>f. cp = relabel f t \<and> inj_on f (oids t) \<and> f ` oids t \<subseteq> {k..<k1} \<and> k \<le> k1"
proof -
  obtain m' where d: "deepcopy_tree t (Map.empty, k) = (cp, (m', k1))"
    using assms by (auto simp: deepcopy_def split: prod.splits)
  have S: "inj_on m' (dom m')" "ran m' \<subseteq> {k..<k1}" "k \<le> k1" "oids t \<subseteq> dom m'"
    "cp = relabel (\<lambda>i. the (m' i)) t"
    using deepcopy_tree_spec [OF d, of k] by simp_all
  have "inj_on (\<lambda>i. the (m' i)) (oids t)"
  proof (rule inj_onI)
    fix x y assume "x \<in> oids t" "y \<in> oids t" "the (m' x) = the (m' y)"
    then have xy: "x \<in> dom m'" "y \<in> dom m'" "the (m' x) = the (m' y)"
      using S(4) by auto
    then have "m' x = m' y" by (auto simp: dom_def)
    then show "x = y" using S(1) xy(1,2) by (auto dest: inj_onD)
  qed
  moreover have "(\<lambda>i. the (m' i)) ` oids t \<subseteq> {k..<k1}"
  proof
    fix j assume "j \<in> (\<lambda>i. the (m' i)) ` oids t"
    then obtain i where "i \<in> oids t" "j = the (m' i)" by auto
    then have "m' i = Some j" using S(4) by auto
    then have "j \<in> ran m'" by (auto simp: ran_def)
    then show "j \<in> {k..<k1}" using S(2) by auto
  qed
  ultimately show ?thesis using S(3,5) by blast
qed

text \<open>
  When the inserted box is an object the tree does not hold yet, \<^verbatim>\<open>add\<close> keeps the
  invariant \<open>inv\<close>, adds one leaf, and gives the root a new box object.
\<close>

lemma inv_mono: "inv d k t \<Longrightarrow> k \<le> k' \<Longrightarrow> inv d k' t"
proof (induction t)
  case (Node a v l r)
  then show ?case
    by (cases l; cases r) auto
qed

lemma inv_oids: "inv d k t \<Longrightarrow> i \<in> oids t \<Longrightarrow> i < k"
proof (induction t)
  case (Node a v l r)
  then show ?case
    by (cases l; cases r) auto
qed

lemma root_in_oids: "oid (aabb t) \<in> oids t"
  by (cases t) simp

lemma inv_root: "inv d k t \<Longrightarrow> dim (aabb t) = Some d \<and> valid_aabb (aabb t) \<and> oid (aabb t) < k"
  by (cases t) simp

lemma inv_good: "inv d k t \<Longrightarrow> good t"
proof (induction t)
  case (Node a v l r)
  then show ?case
    by (cases l; cases r) (auto simp: dim_def)
qed

lemma aabb_relabel: "aabb (relabel f t) = (aabb t)\<lparr>oid := f (oid (aabb t))\<rparr>"
  by (cases t) simp

lemma oids_relabel: "oids (relabel f t) = f ` oids t"
proof (induction t)
  case (Node a v l r)
  then show ?case
    by (cases l; cases r) auto
qed

lemma leaves_relabel: "leaves (relabel f t) = leaves t"
proof (induction t)
  case (Node a v l r)
  then show ?case
    by (cases l; cases r) auto
qed

lemma inv_relabel:
  "inv d k t \<Longrightarrow> inj_on f (oids t) \<Longrightarrow> f ` oids t \<subseteq> {..<k1} \<Longrightarrow> inv d k1 (relabel f t)"
proof (induction t)
  case (Node a v l r)
  have a: "dim (a\<lparr>oid := f (oid a)\<rparr>) = Some d" "valid_aabb (a\<lparr>oid := f (oid a)\<rparr>)" "f (oid a) < k1"
    using Node.prems by (auto simp: dim_def valid_aabb_def)
  show ?case
  proof (cases l)
    case None
    then show ?thesis using Node.prems a by simp
  next
    case (Some lt)
    then obtain rt where rt: "r = Some rt" using Node.prems(1) by (auto split: option.splits)
    have sub: "oids lt \<subseteq> oids (Node a v l r)" "oids rt \<subseteq> oids (Node a v l r)"
      using Some rt by auto
    have il: "inv d k1 (relabel f lt)"
      using Node.IH(1) [of lt] Node.prems Some rt sub(1)
      by (auto intro: inj_on_subset)
    have ir: "inv d k1 (relabel f rt)"
      using Node.IH(2) [of rt] Node.prems Some rt sub(2)
      by (auto intro: inj_on_subset)
    have in1: "oid (aabb lt) \<in> oids (Node a v l r)" and in2: "oid (aabb rt) \<in> oids (Node a v l r)"
      using root_in_oids [of lt] root_in_oids [of rt] sub by blast+
    have ne0: "oid (aabb lt) \<noteq> oid (aabb rt)"
      using Node.prems(1) Some rt by simp
    have ne: "f (oid (aabb lt)) \<noteq> f (oid (aabb rt))"
    proof
      assume "f (oid (aabb lt)) = f (oid (aabb rt))"
      from inj_onD [OF Node.prems(2) this in1 in2] ne0 show False by simp
    qed
    show ?thesis
      using Node.prems(1) a il ir ne by (simp add: Some rt aabb_relabel)
  qed
qed

lemma length_merge_spec [simp]: "length (merge_spec xs ys) = length xs"
  by (simp add: merge_spec_def)

lemma valid_merge_spec:
  assumes "list_all (\<lambda>p. fst p \<le> snd p) xs"
  shows "list_all (\<lambda>p. fst p \<le> snd p) (merge_spec xs ys)"
  using assms
  by (auto simp: merge_spec_def list_all_length min_le_iff_disj le_max_iff_disj)

lemma merge_inv:
  assumes "dim a = Some d" "valid_aabb a" "dim b = Some d" "oid a \<noteq> oid b"
  shows "\<exists>m. merge k a b = Inr m \<and> oid m = k \<and> dim m = Some d \<and> valid_aabb m
             \<and> limits m = Some (merge_spec (the (limits a)) (the (limits b)))"
proof -
  obtain xs ys where xy: "limits a = Some xs" "limits b = Some ys" "length xs = d" "length ys = d"
    using assms(1,3) by (auto simp: dim_def)
  have "merge k a b = Inr \<lparr>oid = k, limits = Some (merge_spec xs ys)\<rparr>"
    using merge_distinct [OF assms(4) xy(1,2) _ assms(2)] xy(3,4) by simp
  moreover have "list_all (\<lambda>p. fst p \<le> snd p) (merge_spec xs ys)"
    using valid_merge_spec [of xs ys] assms(2) xy(1) by (simp add: valid_aabb_def)
  ultimately show ?thesis
    using xy by (simp add: dim_def valid_aabb_def)
qed

lemma recompute_inv:
  assumes "inv d k lt" "inv d k rt" "oid (aabb lt) \<noteq> oid (aabb rt)"
  shows "\<exists>m. recompute v lt rt k = Inr (Node m v (Some lt) (Some rt), Suc k) \<and> oid m = k
             \<and> inv d (Suc k) (Node m v (Some lt) (Some rt))"
proof -
  obtain m where m: "merge k (aabb lt) (aabb rt) = Inr m" "oid m = k" "dim m = Some d"
    "valid_aabb m" "limits m = Some (merge_spec (the (limits (aabb lt))) (the (limits (aabb rt))))"
    using merge_inv [of "aabb lt" d "aabb rt" k] inv_root [OF assms(1)] inv_root [OF assms(2)]
      assms(3) by blast
  have "inv d (Suc k) lt" "inv d (Suc k) rt"
    using assms(1,2) by (auto intro: inv_mono)
  then show ?thesis
    using m assms(3) by (simp add: recompute_def)
qed

lemma split_inv:
  assumes b: "dim b = Some d" "valid_aabb b" "oid b < k"
    and t: "inv d k t" and cp: "deepcopy t k = (cp, k1)"
  shows "\<exists>m. recompute v cp (Node b x None None) k1
               = Inr (Node m v (Some cp) (Some (Node b x None None)), Suc k1)
             \<and> oid m = k1 \<and> k \<le> k1
             \<and> inv d (Suc k1) (Node m v (Some cp) (Some (Node b x None None)))
             \<and> oids cp \<subseteq> {k..<k1} \<and> leaves cp = leaves t"
proof -
  obtain f where f: "cp = relabel f t" "inj_on f (oids t)" "f ` oids t \<subseteq> {k..<k1}" "k \<le> k1"
    using deepcopy_spec [OF cp] by blast
  have "f ` oids t \<subseteq> {..<k1}" using f(3) by auto
  then have icp: "inv d k1 cp"
    using inv_relabel [OF t f(2)] f(1) by simp
  have oc: "oids cp \<subseteq> {k..<k1}"
    using f(1,3) by (simp add: oids_relabel)
  have ib: "inv d k1 (Node b x None None)"
    using b f(4) by simp
  have "oid (aabb cp) \<in> {k..<k1}"
    using root_in_oids [of cp] oc by blast
  then have ne: "oid (aabb cp) \<noteq> oid (aabb (Node b x None None))"
    using b(3) by auto
  from recompute_inv [OF icp ib ne, of v] show ?thesis
    using f(1,4) oc by (auto simp: leaves_relabel)
qed

lemma add_inv:
  assumes b: "dim b = Some d" "valid_aabb b" "oid b < k"
  shows "inv d k t \<Longrightarrow> oid b \<notin> oids t \<Longrightarrow>
     \<exists>t' k'. add t b x k = Inr (t', k') \<and> inv d k' t' \<and> k < k' \<and> k \<le> oid (aabb t')
        \<and> oids t' \<subseteq> oids t \<union> {oid b} \<union> {k..<k'}
        \<and> mset (leaves t') = mset (leaves t) + {#(limits b, x)#}"
  using b(3)
proof (induction t arbitrary: k)
  case (Node a v l r)
  have a: "dim a = Some d" "valid_aabb a" "oid a < k" "oid a \<noteq> oid b"
    using Node.prems by auto
  have ne: "\<not> aabb_eq a \<lparr>oid = k, limits = None\<rparr>"
    using a(1) by (auto simp: aabb_eq_limits dim_def)
  have bk: "oid b < k" by fact
  show ?case
  proof (cases l)
    case None
    then have r: "r = None" using Node.prems(1) by simp
    obtain cp k1 where cp: "deepcopy (Node a v None None) k = (cp, k1)"
      by (cases "deepcopy (Node a v None None) k")
    have it: "inv d k (Node a v None None)"
      using Node.prems(1) None r by simp
    obtain m0 where S: "oid m0 = k1" "k \<le> k1"
      "inv d (Suc k1) (Node m0 None (Some cp) (Some (Node b x None None)))"
      "oids cp \<subseteq> {k..<k1}" "leaves cp = leaves (Node a v None None)"
      using split_inv [OF b(1,2) bk it cp, of None x] by blast
    have lc: "limits (aabb cp) = limits a"
      using deepcopy_strip [OF cp] limits_strip_eq [of cp "Node a v None None"] by simp
    obtain m where m: "merge k1 a b = Inr m" "oid m = k1" "dim m = Some d" "valid_aabb m"
      "limits m = Some (merge_spec (the (limits a)) (the (limits b)))"
      using merge_inv [OF a(1,2) b(1) a(4), of k1] by blast
    have "inv d (Suc k1) (Node m None (Some cp) (Some (Node b x None None)))"
      using S(3) m lc by simp
    then show ?thesis
      using ne m S by (auto simp: None r cp)
  next
    case (Some lt)
    then obtain rt where rt: "r = Some rt" and i: "inv d k lt" "inv d k rt"
      and sib: "oid (aabb lt) \<noteq> oid (aabb rt)"
      using Node.prems(1) by (auto split: option.splits)
    have nb: "oid b \<notin> oids lt" "oid b \<notin> oids rt"
      using Node.prems(2) Some rt by auto
    obtain c where c: "add_costs k (Node a v (Some lt) (Some rt)) b = Inr c"
      using add_costs_total [of a lt rt b k v] a(1,2) inv_good [OF i(1)] inv_good [OF i(2)] b(1)
      by (auto simp: dim_def)
    obtain npc cl cr where c3: "c = (npc, cl, cr)"
      by (cases c)
    show ?thesis
    proof (cases "npc < min cl cr")
      case True
      obtain cp k1 where cp: "deepcopy (Node a v (Some lt) (Some rt)) k = (cp, k1)"
        by (cases "deepcopy (Node a v (Some lt) (Some rt)) k")
      have it: "inv d k (Node a v (Some lt) (Some rt))"
        using Node.prems(1) Some rt by simp
      obtain m where S: "recompute None cp (Node b x None None) k1
               = Inr (Node m None (Some cp) (Some (Node b x None None)), Suc k1)"
        "oid m = k1" "k \<le> k1"
        "inv d (Suc k1) (Node m None (Some cp) (Some (Node b x None None)))"
        "oids cp \<subseteq> {k..<k1}" "leaves cp = leaves (Node a v (Some lt) (Some rt))"
        using split_inv [OF b(1,2) bk it cp, of None x] by blast
      have "add (Node a v l r) b x k = Inr (Node m None (Some cp) (Some (Node b x None None)), Suc k1)"
        using ne True by (simp add: Some rt c c3 cp S(1))
      then show ?thesis
        using S(2-) by (auto simp: Some rt)
    next
      case nsplit: False
      show ?thesis
      proof (cases "cl < cr")
        case True
        obtain lt' k1 where l': "add lt b x k = Inr (lt', k1)" "inv d k1 lt'" "k < k1"
          "k \<le> oid (aabb lt')" "oids lt' \<subseteq> oids lt \<union> {oid b} \<union> {k..<k1}"
          "mset (leaves lt') = mset (leaves lt) + {#(limits b, x)#}"
          using Node.IH(1) [of lt k] i(1) nb(1) bk Some by auto
        have ir: "inv d k1 rt" using i(2) l'(3) by (auto intro: inv_mono)
        have "oid (aabb rt) < k" using inv_root [OF i(2)] by simp
        then have ne': "oid (aabb lt') \<noteq> oid (aabb rt)" using l'(4) by simp
        obtain m where R: "recompute v lt' rt k1 = Inr (Node m v (Some lt') (Some rt), Suc k1)"
          "oid m = k1" "inv d (Suc k1) (Node m v (Some lt') (Some rt))"
          using recompute_inv [OF l'(2) ir ne', of v] by blast
        have "add (Node a v l r) b x k = Inr (Node m v (Some lt') (Some rt), Suc k1)"
          using ne True nsplit by (simp add: Some rt c c3 l'(1) R(1))
        then show ?thesis
          using R(2,3) l'(3,5,6) by (auto simp: Some rt)
      next
        case False
        obtain rt' k1 where r': "add rt b x k = Inr (rt', k1)" "inv d k1 rt'" "k < k1"
          "k \<le> oid (aabb rt')" "oids rt' \<subseteq> oids rt \<union> {oid b} \<union> {k..<k1}"
          "mset (leaves rt') = mset (leaves rt) + {#(limits b, x)#}"
          using Node.IH(2) [of rt k] i(2) nb(2) bk rt by auto
        have il: "inv d k1 lt" using i(1) r'(3) by (auto intro: inv_mono)
        have "oid (aabb lt) < k" using inv_root [OF i(1)] by simp
        then have ne': "oid (aabb lt) \<noteq> oid (aabb rt')" using r'(4) by simp
        obtain m where R: "recompute v lt rt' k1 = Inr (Node m v (Some lt) (Some rt'), Suc k1)"
          "oid m = k1" "inv d (Suc k1) (Node m v (Some lt) (Some rt'))"
          using recompute_inv [OF il r'(2) ne', of v] by blast
        have "add (Node a v l r) b x k = Inr (Node m v (Some lt) (Some rt'), Suc k1)"
          using ne False nsplit by (simp add: Some rt c c3 r'(1) R(1))
        then show ?thesis
          using R(2,3) r'(3,5,6) by (auto simp: Some rt)
      qed
    qed
  qed
qed

lemma add_all_inv:
  assumes "list_all (\<lambda>(b, x). dim b = Some d \<and> valid_aabb b \<and> oid b < k0) ps"
    and "distinct (map (\<lambda>p. oid (fst p)) ps)"
  shows "inv d k t \<Longrightarrow> k0 \<le> k \<Longrightarrow> (\<lambda>p. oid (fst p)) ` set ps \<inter> oids t = {} \<Longrightarrow>
     \<exists>t' k'. add_all t ps k = Inr (t', k') \<and> inv d k' t' \<and> k \<le> k'
        \<and> oids t' \<subseteq> oids t \<union> (\<lambda>p. oid (fst p)) ` set ps \<union> {k..<k'}
        \<and> mset (leaves t') = mset (leaves t) + mset (map (\<lambda>(b, x). (limits b, x)) ps)"
  using assms
proof (induction ps arbitrary: t k)
  case Nil
  then show ?case by simp
next
  case (Cons p ps)
  obtain b x where p: "p = (b, x)" by (cases p)
  have b: "dim b = Some d" "valid_aabb b" "oid b < k0" "oid b < k" "oid b \<notin> oids t"
    using Cons.prems p by auto
  obtain t1 k1 where t1: "add t b x k = Inr (t1, k1)" "inv d k1 t1" "k < k1"
    "oids t1 \<subseteq> oids t \<union> {oid b} \<union> {k..<k1}"
    "mset (leaves t1) = mset (leaves t) + {#(limits b, x)#}"
    using add_inv [OF b(1,2,4) Cons.prems(1) b(5), of x] by blast
  have rest: "list_all (\<lambda>(b, x). dim b = Some d \<and> valid_aabb b \<and> oid b < k0) ps"
    "distinct (map (\<lambda>p. oid (fst p)) ps)" "oid b \<notin> (\<lambda>p. oid (fst p)) ` set ps"
    using Cons.prems(4,5) p by auto
  have small: "\<And>i. i \<in> (\<lambda>p. oid (fst p)) ` set ps \<Longrightarrow> i < k0"
    using rest(1) by (auto simp: list_all_iff)
  have disj: "(\<lambda>p. oid (fst p)) ` set ps \<inter> oids t1 = {}"
  proof -
    have "i \<notin> oids t1" if i: "i \<in> (\<lambda>p. oid (fst p)) ` set ps" for i
    proof
      assume "i \<in> oids t1"
      then consider "i \<in> oids t" | "i = oid b" | "i \<in> {k..<k1}"
        using t1(4) by blast
      then show False
      proof cases
        case 1
        then show ?thesis using Cons.prems(3) i by auto
      next
        case 2
        then show ?thesis using rest(3) i by simp
      next
        case 3
        then show ?thesis using small [OF i] Cons.prems(2) by simp
      qed
    qed
    then show ?thesis by blast
  qed
  have k01: "k0 \<le> k1" using Cons.prems(2) t1(3) by simp
  from Cons.IH [OF t1(2) k01 disj rest(1,2)]
  obtain t' k' where t': "add_all t1 ps k1 = Inr (t', k')" "inv d k' t'" "k1 \<le> k'"
    "oids t' \<subseteq> oids t1 \<union> (\<lambda>p. oid (fst p)) ` set ps \<union> {k1..<k'}"
    "mset (leaves t') = mset (leaves t1) + mset (map (\<lambda>(b, x). (limits b, x)) ps)"
    by (elim exE conjE) (rule that)
  have run: "add_all t (p # ps) k = Inr (t', k')"
    by (simp add: p t1(1) t'(1))
  have kk: "k \<le> k'" using t1(3) t'(3) by simp
  have sub: "oids t' \<subseteq> oids t \<union> (\<lambda>p. oid (fst p)) ` set (p # ps) \<union> {k..<k'}"
  proof
    fix i assume "i \<in> oids t'"
    then consider "i \<in> oids t1" | "i \<in> (\<lambda>p. oid (fst p)) ` set ps" | "i \<in> {k1..<k'}"
      using t'(4) by blast
    then show "i \<in> oids t \<union> (\<lambda>p. oid (fst p)) ` set (p # ps) \<union> {k..<k'}"
    proof cases
      case 1
      then consider "i \<in> oids t" | "i = oid b" | "i \<in> {k..<k1}"
        using t1(4) by blast
      then show ?thesis using t'(3) p by cases auto
    next
      case 2
      then show ?thesis by auto
    next
      case 3
      then show ?thesis using t1(3) by auto
    qed
  qed
  have ms: "mset (leaves t') = mset (leaves t) + mset (map (\<lambda>(b, x). (limits b, x)) (p # ps))"
    by (simp add: t'(5) t1(5) p)
  show ?case
    using run t'(2) kk sub ms by blast
qed

lemma built_inv:
  assumes "list_all (\<lambda>(b, x). dim b = Some d \<and> valid_aabb b \<and> oid b < k) ps"
    and "distinct (map (\<lambda>p. oid (fst p)) ps)" and "ps \<noteq> []"
  shows "\<exists>t k'. add_all empty_tree ps k = Inr (t, k') \<and> inv d k' t
        \<and> oids t \<subseteq> (\<lambda>p. oid (fst p)) ` set ps \<union> {k..<k'}
        \<and> mset (leaves t) = mset (map (\<lambda>(b, x). (limits b, x)) ps)"
proof -
  obtain b x rest where ps: "ps = (b, x) # rest"
    using assms(3) by (cases ps) auto
  have b: "dim b = Some d" "valid_aabb b" "oid b < k"
    using assms(1) ps by auto
  have i: "inv d k (Node b x None None)" using b by simp
  have r: "list_all (\<lambda>(b, x). dim b = Some d \<and> valid_aabb b \<and> oid b < k) rest"
    "distinct (map (\<lambda>p. oid (fst p)) rest)" "(\<lambda>p. oid (fst p)) ` set rest \<inter> oids (Node b x None None) = {}"
    using assms(1,2) ps by auto
  from add_all_inv [OF r(1,2) i _ r(3)] show ?thesis
    by (auto simp: ps add_empty_tree simp del: add.simps)
qed

lemma tight_inv: "inv d k t \<Longrightarrow> tight t"
proof (induction t)
  case (Node a v l r)
  show ?case
  proof (cases l)
    case None
    then show ?thesis using Node.prems by simp
  next
    case (Some lt)
    then obtain rt where rt: "r = Some rt" and i: "inv d k lt" "inv d k rt"
      and sib: "oid (aabb lt) \<noteq> oid (aabb rt)"
      and lim: "limits a = Some (merge_spec (the (limits (aabb lt))) (the (limits (aabb rt))))"
      using Node.prems by (auto split: option.splits)
    obtain m where m: "merge 0 (aabb lt) (aabb rt) = Inr m"
      "limits m = Some (merge_spec (the (limits (aabb lt))) (the (limits (aabb rt))))"
      using merge_inv [of "aabb lt" d "aabb rt" 0] inv_root [OF i(1)] inv_root [OF i(2)] sib
      by blast
    have "tight lt" "tight rt"
      using Node.IH(1) [of lt] Node.IH(2) [of rt] i Some rt by simp_all
    then show ?thesis
      using m lim by (simp add: Some rt aabb_eq_limits)
  qed
qed

lemma overlaps_spec_merge:
  assumes "length xs = length ys" "overlaps_spec xs qs \<or> overlaps_spec ys qs"
  shows "overlaps_spec (merge_spec xs ys) qs"
  using assms
  by (auto simp: overlaps_spec_def merge_spec_def list_all_length le_max_iff_disj min_le_iff_disj)

lemma leaf_contained:
  assumes "length qs = d"
  shows "inv d k t \<Longrightarrow> (ls, v) \<in> set (leaves t) \<Longrightarrow> overlaps_spec (the ls) qs
         \<Longrightarrow> overlaps_spec (the (limits (aabb t))) qs"
proof (induction t)
  case (Node a v' l r)
  show ?case
  proof (cases l)
    case None
    then show ?thesis using Node.prems by simp
  next
    case (Some lt)
    then obtain rt where rt: "r = Some rt" and i: "inv d k lt" "inv d k rt"
      and lim: "limits a = Some (merge_spec (the (limits (aabb lt))) (the (limits (aabb rt))))"
      using Node.prems(1) by (auto split: option.splits)
    have len: "length (the (limits (aabb lt))) = length (the (limits (aabb rt)))"
      using inv_root [OF i(1)] inv_root [OF i(2)] by (auto simp: dim_def)
    have "(ls, v) \<in> set (leaves lt) \<or> (ls, v) \<in> set (leaves rt)"
      using Node.prems(2) Some rt by simp
    then have "overlaps_spec (the (limits (aabb lt))) qs \<or> overlaps_spec (the (limits (aabb rt))) qs"
      using Node.IH(1) [of lt] Node.IH(2) [of rt] i Some rt Node.prems(3) by auto
    then show ?thesis
      using overlaps_spec_merge [OF len] lim by simp
  qed
qed

text \<open>
  Under the invariant, a query with a box object that the tree does not hold visits
  exactly the leaves whose limits pass the overlap test of the specification.
\<close>

lemma overlaps_inv:
  assumes "dim q = Some d" "dim a = Some d" "oid a \<noteq> oid q"
  shows "overlaps a q = Inr (overlaps_spec (the (limits a)) (the (limits q)))"
proof -
  obtain xs qs where "limits a = Some xs" "limits q = Some qs" "length xs = length qs"
    using assms(1,2) by (auto simp: dim_def)
  then show ?thesis
    using overlaps_distinct [OF assms(3), of xs qs] by simp
qed

lemma query_inv:
  assumes q: "dim q = Some d"
  shows "inv d k t \<Longrightarrow> oid q \<notin> oids t \<Longrightarrow>
     does_overlap t q
       = Inr (filter (\<lambda>(ls, v). overlaps_spec (the ls) (the (limits q))) (leaves t) \<noteq> [])
     \<and> overlap_values t q
       = Inr (map snd (filter (\<lambda>(ls, v). overlaps_spec (the ls) (the (limits q))) (leaves t)))"
proof (induction t)
  case (Node a v l r)
  let ?P = "\<lambda>(ls, v). overlaps_spec (the ls) (the (limits q))"
  have qlen: "length (the (limits q)) = d"
    using q by (auto simp: dim_def)
  show ?case
  proof (cases l)
    case None
    then have r: "r = None" using Node.prems(1) by simp
    have "overlaps a q = Inr (overlaps_spec (the (limits a)) (the (limits q)))"
      using overlaps_inv [OF q, of a] Node.prems by simp
    then show ?thesis
      by (cases "overlaps_spec (the (limits a)) (the (limits q))") (simp_all add: None r)
  next
    case (Some lt)
    then obtain rt where rt: "r = Some rt" and i: "inv d k lt" "inv d k rt"
      using Node.prems(1) by (auto split: option.splits)
    have nq: "oid q \<notin> oids lt" "oid q \<notin> oids rt"
      using Node.prems(2) Some rt by auto
    have nr: "oid (aabb lt) \<noteq> oid q" "oid (aabb rt) \<noteq> oid q"
      using nq root_in_oids [of lt] root_in_oids [of rt] by auto
    define lo where "lo = overlaps_spec (the (limits (aabb lt))) (the (limits q))"
    define ro where "ro = overlaps_spec (the (limits (aabb rt))) (the (limits q))"
    have lo: "overlaps (aabb lt) q = Inr lo"
      using overlaps_inv [OF q _ nr(1)] inv_root [OF i(1)] by (simp add: lo_def)
    have ro: "overlaps (aabb rt) q = Inr ro"
      using overlaps_inv [OF q _ nr(2)] inv_root [OF i(2)] by (simp add: ro_def)
    have ihl: "does_overlap lt q = Inr (filter ?P (leaves lt) \<noteq> [])"
      "overlap_values lt q = Inr (map snd (filter ?P (leaves lt)))"
      using Node.IH(1) [of lt] i(1) nq(1) Some by simp_all
    have ihr: "does_overlap rt q = Inr (filter ?P (leaves rt) \<noteq> [])"
      "overlap_values rt q = Inr (map snd (filter ?P (leaves rt)))"
      using Node.IH(2) [of rt] i(2) nq(2) rt by simp_all
    have el: "filter ?P (leaves lt) = []" if "\<not> lo"
    proof -
      have "\<not> ?P p" if "p \<in> set (leaves lt)" for p
        using leaf_contained [OF qlen i(1), of "fst p" "snd p"] that \<open>\<not> lo\<close>
        by (auto simp: lo_def case_prod_beta)
      then show ?thesis by (simp add: filter_empty_conv)
    qed
    have er: "filter ?P (leaves rt) = []" if "\<not> ro"
    proof -
      have "\<not> ?P p" if "p \<in> set (leaves rt)" for p
        using leaf_contained [OF qlen i(2), of "fst p" "snd p"] that \<open>\<not> ro\<close>
        by (auto simp: ro_def case_prod_beta)
      then show ?thesis by (simp add: filter_empty_conv)
    qed
    have dl: "(if lo then does_overlap lt q else Inr False) = Inr (filter ?P (leaves lt) \<noteq> [])"
      using ihl(1) el by auto
    have dr: "(if ro then does_overlap rt q else Inr False) = Inr (filter ?P (leaves rt) \<noteq> [])"
      using ihr(1) er by auto
    have vl: "(if lo then overlap_values lt q else Inr []) = Inr (map snd (filter ?P (leaves lt)))"
      using ihl(2) el by auto
    have vr: "(if ro then overlap_values rt q else Inr []) = Inr (map snd (filter ?P (leaves rt)))"
      using ihr(2) er by auto
    have d: "does_overlap (Node a v l r) q
          = Inr (filter ?P (leaves lt) \<noteq> [] \<or> filter ?P (leaves rt) \<noteq> [])"
      unfolding Some rt does_overlap.simps
      by (simp only: lo ro dl dr sum.case option.case)
         (cases "filter ?P (leaves lt) \<noteq> []"; cases "filter ?P (leaves rt) \<noteq> []"; simp)
    have vs: "overlap_values (Node a v l r) q
          = Inr (map snd (filter ?P (leaves lt)) @ map snd (filter ?P (leaves rt)))"
      unfolding Some rt overlap_values.simps
      by (simp only: lo ro vl vr sum.case option.case) simp
    show ?thesis
      unfolding d vs by (simp add: Some rt)
  qed
qed

text \<open>
  For boxes that are pairwise distinct objects, created before the insertions start
  (identities below \<open>k\<close>), the tree is tight after every insertion, and a query with
  a further object returns the values of exactly the inserted pairs whose box overlaps
  the query box, each once, whatever the order of insertion.
\<close>

lemma tightness_distinct_objects:
  assumes "list_all (\<lambda>(b, x). dim b = Some d \<and> valid_aabb b \<and> oid b < k) ps"
    and "distinct (map (\<lambda>p. oid (fst p)) ps)"
  shows "\<exists>t k'. add_all empty_tree ps k = Inr (t, k') \<and> tight t"
proof (cases "ps = []")
  case True
  then show ?thesis by (simp add: empty_tree_def)
next
  case False
  from built_inv [OF assms False] show ?thesis
    using tight_inv by blast
qed

lemma overlap_values_distinct_objects:
  assumes "list_all (\<lambda>(b, x). dim b = Some d \<and> valid_aabb b \<and> oid b < k) ps"
    and "distinct (map (\<lambda>p. oid (fst p)) ps)" and "ps \<noteq> []"
    and "dim q = Some d" and "oid q < k" and "oid q \<notin> (\<lambda>p. oid (fst p)) ` set ps"
  shows "\<exists>t k' vs. add_all empty_tree ps k = Inr (t, k') \<and> overlap_values t q = Inr vs
     \<and> mset vs = mset (map snd (filter (\<lambda>(b, x). overlaps_spec (the (limits b)) (the (limits q))) ps))"
proof -
  let ?P = "\<lambda>(ls, v). overlaps_spec (the ls) (the (limits q))"
  let ?g = "\<lambda>(b, x). (limits b, x)"
  obtain t k' where t: "add_all empty_tree ps k = Inr (t, k')" "inv d k' t"
    "oids t \<subseteq> (\<lambda>p. oid (fst p)) ` set ps \<union> {k..<k'}"
    "mset (leaves t) = mset (map ?g ps)"
    using built_inv [OF assms(1-3)] by blast
  have nq: "oid q \<notin> oids t"
    using t(3) assms(5,6) by auto
  have vs: "overlap_values t q = Inr (map snd (filter ?P (leaves t)))"
    using query_inv [OF assms(4) t(2) nq] by simp
  have "mset (map snd (filter ?P (leaves t))) = image_mset snd (filter_mset ?P (mset (leaves t)))"
    by simp
  also have "\<dots> = image_mset snd (filter_mset ?P (image_mset ?g (mset ps)))"
    by (simp add: t(4))
  also have "\<dots> = image_mset snd (image_mset ?g (filter_mset (\<lambda>p. ?P (?g p)) (mset ps)))"
    by (simp only: filter_mset_image_mset)
  also have "\<dots> = image_mset (\<lambda>p. snd (?g p)) (filter_mset (\<lambda>p. ?P (?g p)) (mset ps))"
    by (simp add: multiset.map_comp o_def)
  also have "(\<lambda>p. snd (?g p)) = snd"
    by (auto simp: fun_eq_iff)
  also have "(\<lambda>p. ?P (?g p)) = (\<lambda>(b, x). overlaps_spec (the (limits b)) (the (limits q)))"
    by (auto simp: fun_eq_iff)
  finally have "mset (map snd (filter ?P (leaves t)))
      = mset (map snd (filter (\<lambda>(b, x). overlaps_spec (the (limits b)) (the (limits q))) ps))"
    by simp
  then show ?thesis using t(1) vs by blast
qed

section \<open>Queries and the tightness of boxes\<close>

text \<open>
  Claim C1. For boxes that are distinct objects and a query box that is a further
  object the claim holds (lemma \<open>overlap_values_distinct_objects\<close>). It fails when
  the query box is an object the tree holds: a tree holds the box object that was
  inserted, not a copy, at its root leaf and at every right leaf. Queried with that
  same object, the leaf tests the object against itself, and the shared cursor makes
  the test of \<open>[(0, 1), (5, 6)]\<close> fail: \<^verbatim>\<open>overlap_values\<close> returns the empty list,
  although the inserted box overlaps the query box by the test of the specification,
  so the value 7 is omitted.
\<close>

theorem overlap_values_same_object:
  "add_all (empty_tree :: nat tree) [(\<lparr>oid = 1, limits = Some [(0, 1), (5, 6)]\<rparr>, Some 7)] 2
     = Inr (Node \<lparr>oid = 1, limits = Some [(0, 1), (5, 6)]\<rparr> (Some 7) None None, 2)
   \<and> overlap_values (Node \<lparr>oid = 1, limits = Some [(0, 1), (5, 6)]\<rparr> (Some (7::nat)) None None)
        \<lparr>oid = 1, limits = Some [(0, 1), (5, 6)]\<rparr> = Inr []
   \<and> overlaps_spec [(0, 1), (5, 6)] [(0, 1), (5, 6)]"
  by code_simp

text \<open>
  Claim C2. For boxes that are distinct objects the claim holds (lemma
  \<open>tightness_distinct_objects\<close>). It fails when one box object is inserted twice:
  the leaf that holds it is split and line 254 merges the object with itself. The box
  of the new internal node is \<open>[(0, 6)]\<close>, while the merge of the boxes of its two
  children is \<open>[(0, 1), (5, 6)]\<close>, and \<^verbatim>\<open>==\<close> tells them apart.
\<close>

theorem tightness_same_object:
  "add_all (empty_tree :: nat tree)
      [(\<lparr>oid = 1, limits = Some [(0, 1), (5, 6)]\<rparr>, Some 7),
       (\<lparr>oid = 1, limits = Some [(0, 1), (5, 6)]\<rparr>, Some 8)] 2
     = Inr (Node \<lparr>oid = 3, limits = Some [(0, 6)]\<rparr> None
              (Some (Node \<lparr>oid = 2, limits = Some [(0, 1), (5, 6)]\<rparr> (Some 7) None None))
              (Some (Node \<lparr>oid = 1, limits = Some [(0, 1), (5, 6)]\<rparr> (Some 8) None None)), 4)
   \<and> merge 4 \<lparr>oid = 2, limits = Some [(0, 1), (5, 6)]\<rparr> \<lparr>oid = 1, limits = Some [(0, 1), (5, 6)]\<rparr>
     = Inr \<lparr>oid = 4, limits = Some [(0, 1), (5, 6)]\<rparr>
   \<and> \<not> aabb_eq \<lparr>oid = 3, limits = Some [(0, 6)]\<rparr> \<lparr>oid = 4, limits = Some [(0, 1), (5, 6)]\<rparr>"
  by code_simp

end
